theory Spec2Isabelle
  imports Main "HOL-Library.Word"
begin

unbundle bit_operations_syntax

section \<open>Machine types and outcomes\<close>

type_synonym u8 = "8 word"
type_synonym u16 = "16 word"
type_synonym u32 = "32 word"
type_synonym u64 = "64 word"

text \<open>
  The ways a call of the checker can end other than by returning:
  \<^item> \<open>Report ctx msg\<close>: \<^verbatim>\<open>report(ctx, msg)\<close> was called. The function is declared outside
    the two source files; it prints the message and ends the run, it never returns
    (the fall-through \<^verbatim>\<open>case\<close> labels of \<^verbatim>\<open>check_inode_ids\<close> rely on that);
  \<^item> \<open>Exit\<close>: \<^verbatim>\<open>perror(NULL); exit(1)\<close> after a failed \<^verbatim>\<open>calloc\<close>;
  \<^item> \<open>AssertFailed\<close>: an \<^verbatim>\<open>assert\<close> did not hold;
  \<^item> \<open>Fault\<close>: a read or write outside every live object (undefined behaviour in C).
\<close>

datatype failure = Report string string | Exit | AssertFailed | Fault

type_synonym 'a outcome = "failure + 'a"

definition report :: "string \<Rightarrow> string \<Rightarrow> 'a outcome" where
  "report ctx msg = Inl (Report ctx msg)"

definition then_do :: "'a outcome \<Rightarrow> ('a \<Rightarrow> 'b outcome) \<Rightarrow> 'b outcome" where
  "then_do m f = (case m of Inl e \<Rightarrow> Inl e | Inr x \<Rightarrow> f x)"

section \<open>Constants of the headers that are not among the sources\<close>

text \<open>
  \<^verbatim>\<open>inode.c\<close> names the reserved inode numbers only through macros of a header that is
  not among the sources. Their values are a parameter of the model.
\<close>

record ino_nums =
  APFS_INVALID_INO_NUM :: u64
  APFS_ROOT_DIR_PARENT :: u64
  APFS_ROOT_DIR_INO_NUM :: u64
  APFS_PRIV_DIR_INO_NUM :: u64
  APFS_SNAP_DIR_INO_NUM :: u64
  APFS_MIN_USER_INO_NUM :: u64

text \<open>
  The numbers of the on-disk format, used for the concrete runs below: 0 is invalid,
  1 the parent of the root, 2 the root directory, 3 the private directory, 6 the
  snapshot directory, and user inodes start at 16.
\<close>

definition apfs_ino_nums :: ino_nums where
  "apfs_ino_nums = \<lparr> APFS_INVALID_INO_NUM = 0, APFS_ROOT_DIR_PARENT = 1,
     APFS_ROOT_DIR_INO_NUM = 2, APFS_PRIV_DIR_INO_NUM = 3, APFS_SNAP_DIR_INO_NUM = 6,
     APFS_MIN_USER_INO_NUM = 16 \<rparr>"

text \<open>
  What the code needs of these numbers for its \<^verbatim>\<open>switch\<close> statements to mean what
  their labels say: the five special numbers lie below the first user number (a label
  at or above it could never be reached), and the two sentinels differ from the three
  virtual directories (labels of one \<^verbatim>\<open>switch\<close> are distinct in C anyway).
\<close>

definition virtual_dir :: "ino_nums \<Rightarrow> u64 \<Rightarrow> bool" where
  "virtual_dir k x \<longleftrightarrow>
     x = APFS_ROOT_DIR_INO_NUM k \<or> x = APFS_PRIV_DIR_INO_NUM k \<or> x = APFS_SNAP_DIR_INO_NUM k"

definition sentinel :: "ino_nums \<Rightarrow> u64 \<Rightarrow> bool" where
  "sentinel k x \<longleftrightarrow> x = APFS_INVALID_INO_NUM k \<or> x = APFS_ROOT_DIR_PARENT k"

definition ino_nums_ok :: "ino_nums \<Rightarrow> bool" where
  "ino_nums_ok k \<longleftrightarrow>
     APFS_INVALID_INO_NUM k < APFS_MIN_USER_INO_NUM k \<and>
     APFS_ROOT_DIR_PARENT k < APFS_MIN_USER_INO_NUM k \<and>
     APFS_ROOT_DIR_INO_NUM k < APFS_MIN_USER_INO_NUM k \<and>
     APFS_PRIV_DIR_INO_NUM k < APFS_MIN_USER_INO_NUM k \<and>
     APFS_SNAP_DIR_INO_NUM k < APFS_MIN_USER_INO_NUM k \<and>
     APFS_INVALID_INO_NUM k \<noteq> APFS_ROOT_DIR_PARENT k \<and>
     \<not> virtual_dir k (APFS_INVALID_INO_NUM k) \<and>
     \<not> virtual_dir k (APFS_ROOT_DIR_PARENT k)"

section \<open>check_inode_ids\<close>

text \<open>
  \<^verbatim>\<open>void check_inode_ids(u64 ino, u64 parent_ino)\<close>. Each \<^verbatim>\<open>switch\<close> becomes a chain of
  tests in the order of its labels; a \<^verbatim>\<open>report\<close> ends the run, so nothing falls through
  it.
\<close>

definition check_inode_ids :: "ino_nums \<Rightarrow> u64 \<Rightarrow> u64 \<Rightarrow> unit outcome" where
  "check_inode_ids k ino parent_ino =
    (if ino < APFS_MIN_USER_INO_NUM k then
       (if ino = APFS_INVALID_INO_NUM k \<or> ino = APFS_ROOT_DIR_PARENT k then
          report ''Inode record'' ''invalid inode number.''
        else if ino = APFS_ROOT_DIR_INO_NUM k \<or> ino = APFS_PRIV_DIR_INO_NUM k
                \<or> ino = APFS_SNAP_DIR_INO_NUM k then
          (if parent_ino \<noteq> APFS_ROOT_DIR_PARENT k then
             report ''Root inode record'' ''bad parent id''
           else Inr ())
        else report ''Inode record'' ''reserved inode number.'')
     else if parent_ino < APFS_MIN_USER_INO_NUM k then
       (if parent_ino = APFS_INVALID_INO_NUM k then
          report ''Inode record'' ''invalid parent inode number.''
        else if parent_ino = APFS_ROOT_DIR_PARENT k then
          report ''Inode record'' ''root parent id for nonroot.''
        else if parent_ino = APFS_ROOT_DIR_INO_NUM k \<or> parent_ino = APFS_PRIV_DIR_INO_NUM k
                \<or> parent_ino = APFS_SNAP_DIR_INO_NUM k then
          Inr ()
        else report ''Inode record'' ''reserved parent inode number.'')
     else Inr ())"

text \<open>The policy table of the specification, as a function of the two numbers.\<close>

definition ids_policy :: "ino_nums \<Rightarrow> u64 \<Rightarrow> u64 \<Rightarrow> unit outcome" where
  "ids_policy k ino parent_ino =
    (if sentinel k ino then report ''Inode record'' ''invalid inode number.''
     else if virtual_dir k ino then
       (if parent_ino = APFS_ROOT_DIR_PARENT k then Inr ()
        else report ''Root inode record'' ''bad parent id'')
     else if ino < APFS_MIN_USER_INO_NUM k then
       report ''Inode record'' ''reserved inode number.''
     else if parent_ino = APFS_INVALID_INO_NUM k then
       report ''Inode record'' ''invalid parent inode number.''
     else if parent_ino = APFS_ROOT_DIR_PARENT k then
       report ''Inode record'' ''root parent id for nonroot.''
     else if virtual_dir k parent_ino then Inr ()
     else if parent_ino < APFS_MIN_USER_INO_NUM k then
       report ''Inode record'' ''reserved parent inode number.''
     else Inr ())"

section \<open>Inodes and the deferred check\<close>

text \<open>
  The file type bits of \<^verbatim>\<open><sys/stat.h>\<close>, a system header (octal 0170000 and so on).
\<close>

definition S_IFMT :: u16 where "S_IFMT = 0xF000"
definition S_IFSOCK :: u16 where "S_IFSOCK = 0xC000"
definition S_IFLNK :: u16 where "S_IFLNK = 0xA000"
definition S_IFREG :: u16 where "S_IFREG = 0x8000"
definition S_IFBLK :: u16 where "S_IFBLK = 0x6000"
definition S_IFDIR :: u16 where "S_IFDIR = 0x4000"
definition S_IFCHR :: u16 where "S_IFCHR = 0x2000"
definition S_IFIFO :: u16 where "S_IFIFO = 0x1000"

text \<open>
  Objects live at addresses; a pointer is an address or \<^verbatim>\<open>NULL\<close> (\<open>None\<close>).

  \<^verbatim>\<open>struct inode\<close> is declared in a header that is not among the sources. The fields are
  those \<^verbatim>\<open>inode.c\<close> uses, with the widths its assignments give them; following the
  specification's data model the declared link count and the declared child count are
  two fields.
\<close>

type_synonym addr = nat

record inode =
  i_ino :: u64
  i_private_id :: u64
  i_seen :: bool
  i_mode :: u16
  i_nchildren :: u32
  i_nlink :: u32
  i_size :: u64
  i_child_count :: u32
  i_link_count :: u32
  i_next :: "addr option"

text \<open>
  \<^verbatim>\<open>struct dstream\<close> and \<^verbatim>\<open>get_dstream\<close> belong to the extent code, which is not among
  the sources; of the structure only \<^verbatim>\<open>d_size\<close> is read here.

  Modelled from the spec: \<^verbatim>\<open>get_dstream\<close> is "a dstream lookup operation keyed by private
  id, assumed to always resolve", so a live dstream table is a total function from ids
  to dstreams, and \<^verbatim>\<open>vsb->v_dstream_table\<close> is such a table or \<^verbatim>\<open>NULL\<close>.
\<close>

record dstream =
  d_size :: u64

type_synonym dstream_table = "u64 \<Rightarrow> dstream"

definition get_dstream :: "u64 \<Rightarrow> dstream_table \<Rightarrow> dstream" where
  "get_dstream ident table = table ident"

text \<open>
  \<^verbatim>\<open>static void check_inode_stats(struct inode *inode)\<close>; the global
  \<^verbatim>\<open>vsb->v_dstream_table\<close> it reads is the first argument.
\<close>

definition check_inode_stats :: "dstream_table option \<Rightarrow> inode \<Rightarrow> unit outcome" where
  "check_inode_stats v_dstream_table inode =
    (case v_dstream_table of
       None \<Rightarrow> Inl AssertFailed
     | Some table \<Rightarrow>
         then_do
           (if i_mode inode AND S_IFMT = S_IFDIR then
              then_do
                (if i_link_count inode \<noteq> 1 then
                   report ''Inode record'' ''directory has hard links.''
                 else Inr ())
                (\<lambda>_. if i_nchildren inode \<noteq> i_child_count inode then
                        report ''Inode record'' ''wrong directory child count.''
                      else Inr ())
            else
              (if i_nlink inode \<noteq> i_link_count inode then
                 report ''Inode record'' ''wrong link count.''
               else Inr ()))
           (\<lambda>_. let dstream = get_dstream (i_private_id inode) table in
                 if d_size dstream < i_size inode then
                   report ''Inode record'' ''some extents are missing.''
                 else Inr ()))"

text \<open>The link and child counts of an inode agree with what the walker saw.\<close>

definition counts_agree :: "inode \<Rightarrow> bool" where
  "counts_agree inode =
    (if i_mode inode AND S_IFMT = S_IFDIR then
       i_link_count inode = 1 \<and> i_nchildren inode = i_child_count inode
     else i_nlink inode = i_link_count inode)"

text \<open>Some inodes and a dstream table for the concrete runs.\<close>

definition zero_inode :: inode where
  "zero_inode = \<lparr> i_ino = 0, i_private_id = 0, i_seen = False, i_mode = 0, i_nchildren = 0,
     i_nlink = 0, i_size = 0, i_child_count = 0, i_link_count = 0, i_next = None \<rparr>"

definition dstreams_500 :: dstream_table where
  "dstreams_500 = (\<lambda>_. \<lparr> d_size = 500 \<rparr>)"

definition dir_3_children_seen_2 :: inode where
  "dir_3_children_seen_2 = zero_inode \<lparr> i_ino := 20, i_mode := 0x41ED, i_nchildren := 3,
     i_child_count := 2, i_link_count := 1 \<rparr>"

definition dir_hard_linked_1000 :: inode where
  "dir_hard_linked_1000 = zero_inode \<lparr> i_ino := 21, i_mode := 0x41ED, i_size := 1000,
     i_link_count := 2 \<rparr>"

definition file_1000 :: inode where
  "file_1000 = zero_inode \<lparr> i_ino := 22, i_mode := 0x81A4, i_nlink := 1, i_size := 1000,
     i_link_count := 1 \<rparr>"

section \<open>The raw record format\<close>

text \<open>
  The on-disk structures (\<^verbatim>\<open>struct apfs_xf_blob\<close>, \<^verbatim>\<open>struct apfs_x_field\<close>,
  \<^verbatim>\<open>struct apfs_dstream\<close>, \<^verbatim>\<open>struct apfs_dir_stats_val\<close>, \<^verbatim>\<open>struct apfs_inode_val\<close>) and
  the extended field type tags are declared in a header that is not among the sources.
  The parser depends on them through \<^verbatim>\<open>sizeof\<close>, through the fields it reads and
  through the labels of its \<^verbatim>\<open>switch\<close>; these are parameters of the model: the sizes,
  the offsets of the fields read, and the map from a tag byte to the label it equals
  (\<open>None\<close> for the \<^verbatim>\<open>default\<close> branch).
\<close>

datatype ino_ext_type =
    APFS_INO_EXT_TYPE_SNAP_XID
  | APFS_INO_EXT_TYPE_DELTA_TREE_OID
  | APFS_INO_EXT_TYPE_DOCUMENT_ID
  | APFS_INO_EXT_TYPE_NAME
  | APFS_INO_EXT_TYPE_PREV_FSIZE
  | APFS_INO_EXT_TYPE_RESERVED_6
  | APFS_INO_EXT_TYPE_FINDER_INFO
  | APFS_INO_EXT_TYPE_DSTREAM
  | APFS_INO_EXT_TYPE_RESERVED_9
  | APFS_INO_EXT_TYPE_DIR_STATS_KEY
  | APFS_INO_EXT_TYPE_FS_UUID
  | APFS_INO_EXT_TYPE_RESERVED_12
  | APFS_INO_EXT_TYPE_SPARSE_BYTES
  | APFS_INO_EXT_TYPE_RDEV

record raw_format =
  sizeof_inode_val :: nat
  sizeof_xf_blob :: nat
  offsetof_xf_num_exts :: nat
  offsetof_xf_used_data :: nat
  sizeof_x_field :: nat
  offsetof_x_type :: nat
  offsetof_x_size :: nat
  sizeof_dstream :: nat
  offsetof_size :: nat
  sizeof_dir_stats_val :: nat
  ino_ext_type_of :: "u8 \<Rightarrow> ino_ext_type option"


text \<open>
  The layout of the on-disk format, used for the concrete runs: the blob header is the
  16-bit field count and the 16-bit count of used bytes; a descriptor is a type byte, a
  flags byte and a 16-bit size; a dstream is five 64-bit numbers, the size first; the
  directory statistics are four 64-bit numbers; the fixed part of an inode value has 92
  bytes.
\<close>

definition apfs_ext_type :: "u8 \<Rightarrow> ino_ext_type option" where
  "apfs_ext_type t =
    (if t = 1 then Some APFS_INO_EXT_TYPE_SNAP_XID
     else if t = 2 then Some APFS_INO_EXT_TYPE_DELTA_TREE_OID
     else if t = 3 then Some APFS_INO_EXT_TYPE_DOCUMENT_ID
     else if t = 4 then Some APFS_INO_EXT_TYPE_NAME
     else if t = 5 then Some APFS_INO_EXT_TYPE_PREV_FSIZE
     else if t = 6 then Some APFS_INO_EXT_TYPE_RESERVED_6
     else if t = 7 then Some APFS_INO_EXT_TYPE_FINDER_INFO
     else if t = 8 then Some APFS_INO_EXT_TYPE_DSTREAM
     else if t = 9 then Some APFS_INO_EXT_TYPE_RESERVED_9
     else if t = 10 then Some APFS_INO_EXT_TYPE_DIR_STATS_KEY
     else if t = 11 then Some APFS_INO_EXT_TYPE_FS_UUID
     else if t = 12 then Some APFS_INO_EXT_TYPE_RESERVED_12
     else if t = 13 then Some APFS_INO_EXT_TYPE_SPARSE_BYTES
     else if t = 14 then Some APFS_INO_EXT_TYPE_RDEV
     else None)"

definition apfs_raw :: raw_format where
  "apfs_raw = \<lparr> sizeof_inode_val = 92, sizeof_xf_blob = 4, offsetof_xf_num_exts = 0,
     offsetof_xf_used_data = 2, sizeof_x_field = 4, offsetof_x_type = 0, offsetof_x_size = 2,
     sizeof_dstream = 40, offsetof_size = 0, sizeof_dir_stats_val = 32,
     ino_ext_type_of = apfs_ext_type \<rparr>"

subsection \<open>Integer conversions and memory reads\<close>

text \<open>
  A C \<^verbatim>\<open>int\<close> has 32 bits and \<^verbatim>\<open>size_t\<close> 64. \<open>int32\<close> is the conversion of a result to
  \<^verbatim>\<open>int\<close> (the low 32 bits, read as two's complement), \<open>as_size_t\<close> the conversion of an
  \<^verbatim>\<open>int\<close> that meets a \<^verbatim>\<open>size_t\<close> in a comparison or a subtraction.
\<close>

definition int32 :: "int \<Rightarrow> int" where
  "int32 x = signed_take_bit 31 x"

definition as_size_t :: "int \<Rightarrow> int" where
  "as_size_t x = x mod 2 ^ 64"

text \<open>
  A buffer is the list of the bytes that can be read from a pointer on; an offset
  outside it is a fault. The \<^verbatim>\<open>le16_to_cpu\<close> and \<^verbatim>\<open>le64_to_cpu\<close> of a field are the
  little-endian numbers of its bytes.
\<close>

fun le_nat :: "u8 list \<Rightarrow> nat" where
  "le_nat [] = 0"
| "le_nat (b # bs) = unat b + 256 * le_nat bs"

definition bytes_at :: "u8 list \<Rightarrow> int \<Rightarrow> nat \<Rightarrow> u8 list" where
  "bytes_at buf off n = take n (drop (nat off) buf)"

definition in_buf :: "u8 list \<Rightarrow> int \<Rightarrow> nat \<Rightarrow> bool" where
  "in_buf buf off n \<longleftrightarrow> 0 \<le> off \<and> off + int n \<le> int (length buf)"

definition rd8 :: "u8 list \<Rightarrow> int \<Rightarrow> u8 outcome" where
  "rd8 buf off = (if in_buf buf off 1 then Inr (buf ! nat off) else Inl Fault)"

definition le16_at :: "u8 list \<Rightarrow> int \<Rightarrow> u16" where
  "le16_at buf off = of_nat (le_nat (bytes_at buf off 2))"

definition le64_at :: "u8 list \<Rightarrow> int \<Rightarrow> u64" where
  "le64_at buf off = of_nat (le_nat (bytes_at buf off 8))"

definition rd_le16 :: "u8 list \<Rightarrow> int \<Rightarrow> u16 outcome" where
  "rd_le16 buf off = (if in_buf buf off 2 then Inr (le16_at buf off) else Inl Fault)"

definition rd_le64 :: "u8 list \<Rightarrow> int \<Rightarrow> u64 outcome" where
  "rd_le64 buf off = (if in_buf buf off 8 then Inr (le64_at buf off) else Inl Fault)"

text \<open>
  \<^verbatim>\<open>strnlen(s, maxlen)\<close> of the C library: the number of bytes before the first zero
  byte among the first \<open>maxlen\<close> bytes at \<open>s\<close>, or \<open>maxlen\<close> if there is none. It reads no
  further than that; a read that leaves the buffer is a fault.
\<close>

definition strnlen :: "u8 list \<Rightarrow> int \<Rightarrow> int \<Rightarrow> int outcome" where
  "strnlen buf off maxlen =
    (if off < 0 then Inl Fault
     else
       let s = bytes_at buf off (nat maxlen);
           n = length (takeWhile (\<lambda>b. b \<noteq> 0) s)
       in if n < length s then Inr (int n)
          else if int (length s) = maxlen then Inr maxlen
          else Inl Fault)"

text \<open>
  Modelled from the spec: the macro \<^verbatim>\<open>ROUND_UP\<close> is defined outside the sources; "each
  field's payload is padded to an 8-byte boundary", so \<^verbatim>\<open>ROUND_UP(x, 8)\<close> is the least
  multiple of 8 that is not below \<open>x\<close>.
\<close>

definition ROUND_UP :: "int \<Rightarrow> int \<Rightarrow> int" where
  "ROUND_UP x y = (x + y - 1) div y * y"

section \<open>The extended fields of an inode record\<close>

text \<open>
  \<^verbatim>\<open>static int read_dstream_xfield(char *xval, int len, struct inode *inode)\<close>. The
  pointer \<open>xval\<close> is an offset into the buffer of the blob; the inode written through
  the pointer is returned with the length.
\<close>

definition read_dstream_xfield ::
  "raw_format \<Rightarrow> u8 list \<Rightarrow> int \<Rightarrow> int \<Rightarrow> inode \<Rightarrow> (int \<times> inode) outcome" where
  "read_dstream_xfield R buf xval len inode =
    (if as_size_t len < int (sizeof_dstream R) then
       report ''Dstream xfield'' ''doesn't fit in inode record.''
     else
       then_do (rd_le64 buf (xval + int (offsetof_size R)))
         (\<lambda>sz. Inr (int32 (int (sizeof_dstream R)), inode \<lparr> i_size := sz \<rparr>)))"

text \<open>The place of descriptor \<open>i\<close>: \<^verbatim>\<open>xfield[i]\<close> with \<^verbatim>\<open>xfield = xblob->xf_data\<close>.\<close>

definition xfield_at :: "raw_format \<Rightarrow> nat \<Rightarrow> int" where
  "xfield_at R i = int (sizeof_xf_blob R) + int i * int (sizeof_x_field R)"

text \<open>The \<^verbatim>\<open>switch\<close> on the type of descriptor \<open>i\<close>: the length \<open>xlen\<close> of its value.\<close>

definition xfield_len ::
  "raw_format \<Rightarrow> u8 list \<Rightarrow> nat \<Rightarrow> int \<Rightarrow> int \<Rightarrow> inode \<Rightarrow> (int \<times> inode) outcome" where
  "xfield_len R buf i len xval inode =
    then_do (rd8 buf (xfield_at R i + int (offsetof_x_type R)))
      (\<lambda>x_type. case ino_ext_type_of R x_type of
          Some APFS_INO_EXT_TYPE_FS_UUID \<Rightarrow> Inr (16, inode)
        | Some APFS_INO_EXT_TYPE_SNAP_XID \<Rightarrow> Inr (8, inode)
        | Some APFS_INO_EXT_TYPE_DELTA_TREE_OID \<Rightarrow> Inr (8, inode)
        | Some APFS_INO_EXT_TYPE_PREV_FSIZE \<Rightarrow> Inr (8, inode)
        | Some APFS_INO_EXT_TYPE_SPARSE_BYTES \<Rightarrow> Inr (8, inode)
        | Some APFS_INO_EXT_TYPE_DOCUMENT_ID \<Rightarrow> Inr (4, inode)
        | Some APFS_INO_EXT_TYPE_FINDER_INFO \<Rightarrow> Inr (4, inode)
        | Some APFS_INO_EXT_TYPE_RDEV \<Rightarrow> Inr (4, inode)
        | Some APFS_INO_EXT_TYPE_NAME \<Rightarrow>
            then_do (strnlen buf xval (as_size_t (len - 1)))
              (\<lambda>n. let xlen = int32 (n + 1) in
                 then_do (rd8 buf (xval + (xlen - 1)))
                   (\<lambda>last. if last \<noteq> 0 then
                              report ''Inode xfield'' ''name with no null termination''
                            else Inr (xlen, inode)))
        | Some APFS_INO_EXT_TYPE_DSTREAM \<Rightarrow> read_dstream_xfield R buf xval len inode
        | Some APFS_INO_EXT_TYPE_DIR_STATS_KEY \<Rightarrow>
            Inr (int32 (int (sizeof_dir_stats_val R)), inode)
        | Some APFS_INO_EXT_TYPE_RESERVED_6 \<Rightarrow> report ''Inode xfield'' ''reserved type in use.''
        | Some APFS_INO_EXT_TYPE_RESERVED_9 \<Rightarrow> report ''Inode xfield'' ''reserved type in use.''
        | Some APFS_INO_EXT_TYPE_RESERVED_12 \<Rightarrow> report ''Inode xfield'' ''reserved type in use.''
        | None \<Rightarrow> report ''Inode xfield'' ''invalid type.'')"

text \<open>
  The inner loop \<^verbatim>\<open>for (; xpad_len; ++xval, --xpad_len)\<close> over the padding bytes; it
  returns the advanced \<open>xval\<close>.
\<close>

fun check_padding :: "u8 list \<Rightarrow> int \<Rightarrow> nat \<Rightarrow> int outcome" where
  "check_padding buf xval 0 = Inr xval"
| "check_padding buf xval (Suc xpad_len) =
    then_do (rd8 buf xval)
      (\<lambda>b. if b \<noteq> 0 then report ''Inode xfield'' ''non-zero padding.''
            else check_padding buf (xval + 1) xpad_len)"

text \<open>
  One turn of the loop over the descriptors, on the variables \<open>len\<close>, \<open>xval\<close> and the
  inode.
\<close>

definition xfield_step ::
  "raw_format \<Rightarrow> u8 list \<Rightarrow> nat \<Rightarrow> int \<times> int \<times> inode \<Rightarrow> (int \<times> int \<times> inode) outcome" where
  "xfield_step R buf i st =
    (case st of (len, xval, inode) \<Rightarrow>
      then_do (xfield_len R buf i len xval inode)
        (\<lambda>(xlen, inode').
          then_do (rd_le16 buf (xfield_at R i + int (offsetof_x_size R)))
            (\<lambda>x_size.
              if xlen \<noteq> uint x_size then report ''Inode xfield'' ''wrong size''
              else
                let len1 = int32 (len - xlen);
                    xval1 = xval + xlen;
                    xpad_len = int32 (ROUND_UP xlen 8 - xlen);
                    len2 = int32 (len1 - xpad_len)
                in if len2 < 0 then report ''Inode xfield'' ''does not fit in record value.''
                   else then_do (check_padding buf xval1 (nat xpad_len))
                          (\<lambda>xval2. Inr (len2, xval2, inode')))))"

text \<open>The loop \<^verbatim>\<open>for (i = 0; i < xcount; ++i)\<close>, over the list of the values of \<open>i\<close>.\<close>

fun xfields_loop ::
  "raw_format \<Rightarrow> u8 list \<Rightarrow> nat list \<Rightarrow> int \<times> int \<times> inode \<Rightarrow> (int \<times> int \<times> inode) outcome" where
  "xfields_loop R buf [] st = Inr st"
| "xfields_loop R buf (i # is) st = then_do (xfield_step R buf i st) (xfields_loop R buf is)"

text \<open>
  \<^verbatim>\<open>static void parse_inode_xfields(struct apfs_xf_blob *xblob, int len, struct inode *inode)\<close>.
  \<open>xblob\<close> is the buffer from the pointer on. The loop test reads the field count again
  at every turn; nothing writes to the buffer, so it is \<open>xcount\<close>.
\<close>

definition parse_inode_xfields :: "raw_format \<Rightarrow> u8 list \<Rightarrow> int \<Rightarrow> inode \<Rightarrow> inode outcome" where
  "parse_inode_xfields R xblob len inode =
    (if len = 0 then Inr inode
     else
       let len1 = int32 (as_size_t len - int (sizeof_xf_blob R)) in
       if len1 < 0 then report ''Inode records'' ''no room for extended fields.''
       else
         then_do (rd_le16 xblob (int (offsetof_xf_num_exts R)))
           (\<lambda>xf_num_exts.
             let xcount = uint xf_num_exts;
                 xval = int (sizeof_xf_blob R) + xcount * int (sizeof_x_field R);
                 len2 = int32 (as_size_t len1 - xcount * int (sizeof_x_field R))
             in if len2 < 0 then report ''Inode record'' ''number of xfields cannot fit.''
                else
                  then_do (rd_le16 xblob (int (offsetof_xf_used_data R)))
                    (\<lambda>xf_used_data.
                      if uint xf_used_data \<noteq> len2 then
                        report ''Inode record'' ''value size incompatible with xfields.''
                      else
                        then_do (xfields_loop R xblob [0..<nat xcount] (len2, xval, inode))
                          (\<lambda>(len3, xval3, inode').
                            if len3 \<noteq> 0 then
                              report ''Inode record'' ''length of xfields does not add up.''
                            else Inr inode'))))"

subsection \<open>What a blob declares\<close>



definition x_size_of :: "raw_format \<Rightarrow> u8 list \<Rightarrow> nat \<Rightarrow> int" where
  "x_size_of R xblob i = uint (le16_at xblob (xfield_at R i + int (offsetof_x_size R)))"



definition blob_empty_name :: "u8 list" where
  "blob_empty_name = [1, 0, 0, 0,  4, 0, 1, 0]"

definition blob_empty_name_then_memory :: "u8 list" where
  "blob_empty_name_then_memory = [1, 0, 0, 0,  4, 0, 2, 0] @ [0x41, 0]"

section \<open>Linked chains in memory\<close>

text \<open>
  Both hash tables are arrays of buckets, each the head of a chain of objects linked
  through a \<open>next\<close> pointer. The loop of \<^verbatim>\<open>get_inode\<close> and the loop of
  \<^verbatim>\<open>get_htable_entry\<close> are the same text up to the names of two fields, the id and
  the next pointer; the model has the loop once, over the view of memory that gives
  these two fields of the live object at an address.

  \<open>entry_p\<close> points at a bucket of the table or at the next pointer of an object. The
  loop is left by \<^verbatim>\<open>return entry\<close> (\<open>Found\<close>) or, by \<^verbatim>\<open>break\<close> or at the end of the chain,
  with the values of \<open>entry_p\<close> and \<open>entry\<close> (\<open>Vacant\<close>); the pair of the two is the
  state \<open>st\<close> of the loop. Reading through a pointer to no
  live object is a fault. A chain that runs in a circle keeps the loop going for ever:
  the result is then \<open>None\<close>.
\<close>

type_synonym links = "addr \<Rightarrow> (u64 \<times> addr option) option"

datatype slot = Bucket nat | Next_field addr

datatype lookup = Found addr | Vacant slot "addr option"

partial_function (option) walk_chain ::
  "links \<Rightarrow> u64 \<Rightarrow> slot \<times> addr option \<Rightarrow> lookup outcome option" where
  "walk_chain lk ident st =
    (case snd st of
       None \<Rightarrow> Some (Inr (Vacant (fst st) None))
     | Some a \<Rightarrow>
         (case lk a of
            None \<Rightarrow> Some (Inl Fault)
          | Some l \<Rightarrow>
              if ident = fst l then Some (Inr (Found a))
              else if ident < fst l then Some (Inr (Vacant (fst st) (Some a)))
              else walk_chain lk ident (Next_field a, snd l)))"

text \<open>
  A heap of objects of one type is the list of its cells; the address of an object is
  its index, a freed cell is \<open>None\<close>. \<^verbatim>\<open>calloc\<close> hands out the next cell, so the address of a
  new object differs from every address in use.
\<close>

definition cell :: "'a option list \<Rightarrow> addr \<Rightarrow> 'a option" where
  "cell h a = (if a < length h then h ! a else None)"

text \<open>
  \<open>index_of\<close> is \<^verbatim>\<open>int index = id % INODE_TABLE_BUCKETS\<close>: a remainder of unsigned 64-bit
  numbers, converted to \<^verbatim>\<open>int\<close>.
\<close>

definition index_of :: "nat \<Rightarrow> u64 \<Rightarrow> int" where
  "index_of buckets ident = int32 (int (unat ident mod buckets))"

section \<open>The inode table\<close>

text \<open>
  The state of the checker as far as \<^verbatim>\<open>inode.c\<close> touches it: the heap of inodes, the
  fields of the global \<^verbatim>\<open>vsb\<close> it uses (declared in a header that is not among the
  sources), and how many further calls of \<^verbatim>\<open>calloc\<close> succeed. The bucket array of the
  inode table is \<^verbatim>\<open>vsb->v_inode_table\<close>; \<open>None\<close> stands for no live array.
\<close>

record fsck =
  inodes :: "inode option list"
  callocs_left :: nat
  v_inode_table :: "addr option list option"
  v_dstream_table :: "dstream_table option"
  v_file_count :: u64
  v_dir_count :: u64
  v_symlink_count :: u64
  v_special_count :: u64

definition inode_links :: "inode option list \<Rightarrow> links" where
  "inode_links h a = map_option (\<lambda>e. (i_ino e, i_next e)) (cell h a)"

text \<open>
  \<^verbatim>\<open>struct inode **alloc_inode_table(void)\<close>. The bucket count \<^verbatim>\<open>INODE_TABLE_BUCKETS\<close> is a
  macro of a header that is not among the sources, and a parameter here. The function
  returns the array; its caller, outside the sources, keeps it in
  \<^verbatim>\<open>vsb->v_inode_table\<close>, where \<^verbatim>\<open>parse_inode_record\<close> expects it, and the model stores it
  there.
\<close>

definition alloc_inode_table :: "nat \<Rightarrow> fsck \<Rightarrow> fsck outcome" where
  "alloc_inode_table buckets s =
    (if callocs_left s = 0 then Inl Exit
     else Inr (s \<lparr> callocs_left := callocs_left s - 1,
                   v_inode_table := Some (replicate buckets None) \<rparr>))"

text \<open>The assignment \<^verbatim>\<open>*entry_p = new\<close>.\<close>

definition store_inode_slot :: "slot \<Rightarrow> addr option \<Rightarrow> fsck \<Rightarrow> fsck outcome" where
  "store_inode_slot entry_p v s =
    (case entry_p of
       Bucket i \<Rightarrow>
         (case v_inode_table s of
            None \<Rightarrow> Inl Fault
          | Some table \<Rightarrow>
              if i < length table then Inr (s \<lparr> v_inode_table := Some (table [i := v]) \<rparr>)
              else Inl Fault)
     | Next_field a \<Rightarrow>
         (case cell (inodes s) a of
            None \<Rightarrow> Inl Fault
          | Some e \<Rightarrow> Inr (s \<lparr> inodes := (inodes s) [a := Some (e \<lparr> i_next := v \<rparr>)] \<rparr>)))"

text \<open>
  \<^verbatim>\<open>struct inode *get_inode(u64 ino, struct inode **table)\<close>, with the table of the state
  for \<open>table\<close> (the only table \<^verbatim>\<open>inode.c\<close> passes). The result is the address returned and
  the state after the call.
\<close>

definition get_inode :: "nat \<Rightarrow> u64 \<Rightarrow> fsck \<Rightarrow> (addr \<times> fsck) outcome option" where
  "get_inode buckets ino s =
    (case v_inode_table s of
       None \<Rightarrow> Some (Inl Fault)
     | Some table \<Rightarrow>
         if buckets = 0 then Some (Inl Fault)
         else
           let index = index_of buckets ino in
           if index < 0 \<or> int (length table) \<le> index then Some (Inl Fault)
           else
             (case walk_chain (inode_links (inodes s)) ino
                     (Bucket (nat index), table ! nat index) of
                None \<Rightarrow> None
              | Some (Inl e) \<Rightarrow> Some (Inl e)
              | Some (Inr (Found entry)) \<Rightarrow> Some (Inr (entry, s))
              | Some (Inr (Vacant entry_p entry)) \<Rightarrow>
                  if callocs_left s = 0 then Some (Inl Exit)
                  else
                    let new = length (inodes s);
                        obj = zero_inode \<lparr> i_seen := False, i_ino := ino, i_next := entry \<rparr>;
                        s1 = s \<lparr> inodes := inodes s @ [Some obj],
                                callocs_left := callocs_left s - 1 \<rparr>
                    in Some (then_do (store_inode_slot entry_p (Some new) s1)
                               (\<lambda>s2. Inr (new, s2)))))"

text \<open>
  \<^verbatim>\<open>void free_inode_table(struct inode **table)\<close>: the inner loop over one chain, the
  outer loop over the buckets, and the whole function. \<^verbatim>\<open>free\<close> of an address that holds
  no live object is a fault.
\<close>

partial_function (option) free_inode_chain :: "addr option \<Rightarrow> fsck \<Rightarrow> fsck outcome option" where
  "free_inode_chain current s =
    (case current of
       None \<Rightarrow> Some (Inr s)
     | Some a \<Rightarrow>
         (case cell (inodes s) a of
            None \<Rightarrow> Some (Inl Fault)
          | Some inode \<Rightarrow>
              (case check_inode_stats (v_dstream_table s) inode of
                 Inl e \<Rightarrow> Some (Inl e)
               | Inr _ \<Rightarrow>
                   free_inode_chain (i_next inode) (s \<lparr> inodes := (inodes s) [a := None] \<rparr>))))"

fun free_inode_buckets :: "nat list \<Rightarrow> fsck \<Rightarrow> fsck outcome option" where
  "free_inode_buckets [] s = Some (Inr s)"
| "free_inode_buckets (i # is) s =
    (case v_inode_table s of
       None \<Rightarrow> Some (Inl Fault)
     | Some table \<Rightarrow>
         if length table \<le> i then Some (Inl Fault)
         else
           (case free_inode_chain (table ! i) s of
              None \<Rightarrow> None
            | Some (Inl e) \<Rightarrow> Some (Inl e)
            | Some (Inr s') \<Rightarrow> free_inode_buckets is s'))"

definition free_inode_table :: "nat \<Rightarrow> fsck \<Rightarrow> fsck outcome option" where
  "free_inode_table buckets s =
    (case free_inode_buckets [0..<buckets] s of
       None \<Rightarrow> None
     | Some (Inl e) \<Rightarrow> Some (Inl e)
     | Some (Inr s') \<Rightarrow>
         (case v_inode_table s' of
            None \<Rightarrow> Some (Inl Fault)
          | Some _ \<Rightarrow> Some (Inr (s' \<lparr> v_inode_table := None \<rparr>))))"

section \<open>The generic hash table\<close>

text \<open>
  \<^verbatim>\<open>union htable_entry\<close> is declared in a header that is not among the sources;
  \<^verbatim>\<open>htable.c\<close> uses its header part, the fields \<^verbatim>\<open>h_next\<close> and \<^verbatim>\<open>h_id\<close>. An entry is
  allocated with the size its user asks for, all bytes zero; the model keeps that size
  in place of the bytes after the header.
\<close>

record htable_entry =
  h_next :: "addr option"
  h_id :: u64
  h_size :: int

record htable_mem =
  entries :: "htable_entry option list"
  h_callocs_left :: nat
  h_table :: "addr option list option"

definition htable_links :: "htable_entry option list \<Rightarrow> links" where
  "htable_links h a = map_option (\<lambda>e. (h_id e, h_next e)) (cell h a)"

text \<open>
  \<^verbatim>\<open>union htable_entry **alloc_htable(void)\<close>. The array has \<^verbatim>\<open>HTABLE_BUCKETS\<close> buckets, a
  macro of a header that is not among the sources.
\<close>

definition alloc_htable :: "nat \<Rightarrow> 'z htable_mem_scheme \<Rightarrow> 'z htable_mem_scheme outcome" where
  "alloc_htable HTABLE_BUCKETS m =
    (if h_callocs_left m = 0 then Inl Exit
     else Inr (m \<lparr> h_callocs_left := h_callocs_left m - 1,
                   h_table := Some (replicate HTABLE_BUCKETS None) \<rparr>))"

definition store_htable_slot ::
  "slot \<Rightarrow> addr option \<Rightarrow> 'z htable_mem_scheme \<Rightarrow> 'z htable_mem_scheme outcome" where
  "store_htable_slot entry_p v m =
    (case entry_p of
       Bucket i \<Rightarrow>
         (case h_table m of
            None \<Rightarrow> Inl Fault
          | Some table \<Rightarrow>
              if i < length table then Inr (m \<lparr> h_table := Some (table [i := v]) \<rparr>)
              else Inl Fault)
     | Next_field a \<Rightarrow>
         (case cell (entries m) a of
            None \<Rightarrow> Inl Fault
          | Some e \<Rightarrow> Inr (m \<lparr> entries := (entries m) [a := Some (e \<lparr> h_next := v \<rparr>)] \<rparr>)))"

text \<open>
  \<^verbatim>\<open>union htable_entry *get_htable_entry(u64 id, int size, union htable_entry **table)\<close>,
  with the table of the memory for \<open>table\<close> and \<open>entry_size\<close> for \<open>size\<close>. The index is taken modulo
  \<^verbatim>\<open>INODE_TABLE_BUCKETS\<close>, as the source has it, not modulo \<^verbatim>\<open>HTABLE_BUCKETS\<close>.
\<close>

definition get_htable_entry ::
  "nat \<Rightarrow> u64 \<Rightarrow> int \<Rightarrow> 'z htable_mem_scheme \<Rightarrow> (addr \<times> 'z htable_mem_scheme) outcome option" where
  "get_htable_entry INODE_TABLE_BUCKETS ident entry_size m =
    (case h_table m of
       None \<Rightarrow> Some (Inl Fault)
     | Some table \<Rightarrow>
         if INODE_TABLE_BUCKETS = 0 then Some (Inl Fault)
         else
           let index = index_of INODE_TABLE_BUCKETS ident in
           if index < 0 \<or> int (length table) \<le> index then Some (Inl Fault)
           else
             (case walk_chain (htable_links (entries m)) ident
                     (Bucket (nat index), table ! nat index) of
                None \<Rightarrow> None
              | Some (Inl e) \<Rightarrow> Some (Inl e)
              | Some (Inr (Found entry)) \<Rightarrow> Some (Inr (entry, m))
              | Some (Inr (Vacant entry_p entry)) \<Rightarrow>
                  if h_callocs_left m = 0 then Some (Inl Exit)
                  else
                    let new = length (entries m);
                        obj = \<lparr> h_next = entry, h_id = ident, h_size = entry_size \<rparr>;
                        m1 = m \<lparr> entries := entries m @ [Some obj],
                                h_callocs_left := h_callocs_left m - 1 \<rparr>
                    in Some (then_do (store_htable_slot entry_p (Some new) m1)
                               (\<lambda>m2. Inr (new, m2)))))"

text \<open>
  \<^verbatim>\<open>void free_htable(union htable_entry **table, void (*free_entry)(union htable_entry *))\<close>:
  the inner loop, the outer loop (over \<^verbatim>\<open>INODE_TABLE_BUCKETS\<close> buckets) and the function.
  The finalizer \<open>free_entry\<close> is any function on the memory that may also end the run.
\<close>

partial_function (option) free_htable_chain ::
  "(addr \<Rightarrow> 'z htable_mem_scheme \<Rightarrow> 'z htable_mem_scheme outcome) \<Rightarrow> addr option
    \<Rightarrow> 'z htable_mem_scheme \<Rightarrow> 'z htable_mem_scheme outcome option" where
  "free_htable_chain free_entry current m =
    (case current of
       None \<Rightarrow> Some (Inr m)
     | Some a \<Rightarrow>
         (case cell (entries m) a of
            None \<Rightarrow> Some (Inl Fault)
          | Some e \<Rightarrow>
              (case free_entry a m of
                 Inl err \<Rightarrow> Some (Inl err)
               | Inr m' \<Rightarrow> free_htable_chain free_entry (h_next e) m')))"

fun free_htable_buckets ::
  "(addr \<Rightarrow> 'z htable_mem_scheme \<Rightarrow> 'z htable_mem_scheme outcome) \<Rightarrow> nat list
    \<Rightarrow> 'z htable_mem_scheme \<Rightarrow> 'z htable_mem_scheme outcome option" where
  "free_htable_buckets free_entry [] m = Some (Inr m)"
| "free_htable_buckets free_entry (i # is) m =
    (case h_table m of
       None \<Rightarrow> Some (Inl Fault)
     | Some table \<Rightarrow>
         if length table \<le> i then Some (Inl Fault)
         else
           (case free_htable_chain free_entry (table ! i) m of
              None \<Rightarrow> None
            | Some (Inl e) \<Rightarrow> Some (Inl e)
            | Some (Inr m') \<Rightarrow> free_htable_buckets free_entry is m'))"

definition free_htable ::
  "nat \<Rightarrow> (addr \<Rightarrow> 'z htable_mem_scheme \<Rightarrow> 'z htable_mem_scheme outcome)
    \<Rightarrow> 'z htable_mem_scheme \<Rightarrow> 'z htable_mem_scheme outcome option" where
  "free_htable INODE_TABLE_BUCKETS free_entry m =
    (case free_htable_buckets free_entry [0..<INODE_TABLE_BUCKETS] m of
       None \<Rightarrow> None
     | Some (Inl e) \<Rightarrow> Some (Inl e)
     | Some (Inr m') \<Rightarrow>
         (case h_table m' of
            None \<Rightarrow> Some (Inl Fault)
          | Some _ \<Rightarrow> Some (Inr (m' \<lparr> h_table := None \<rparr>))))"

text \<open>
  \<^verbatim>\<open>free\<close> of the C library as a finalizer, and \<^verbatim>\<open>free_cnid_table\<close>, which passes it.
\<close>

definition c_free :: "addr \<Rightarrow> 'z htable_mem_scheme \<Rightarrow> 'z htable_mem_scheme outcome" where
  "c_free a m =
    (case cell (entries m) a of
       None \<Rightarrow> Inl Fault
     | Some _ \<Rightarrow> Inr (m \<lparr> entries := (entries m) [a := None] \<rparr>))"

definition free_cnid_table ::
  "nat \<Rightarrow> 'z htable_mem_scheme \<Rightarrow> 'z htable_mem_scheme outcome option" where
  "free_cnid_table INODE_TABLE_BUCKETS m = free_htable INODE_TABLE_BUCKETS c_free m"

section \<open>Sorted chains and the table invariant\<close>

text \<open>
  The notions the statements about the tables use. \<open>path lk p as q\<close>: following the
  next pointers from \<open>p\<close> passes exactly the live objects at the addresses \<open>as\<close>, in
  this order, and arrives at \<open>q\<close>; a chain is a path to \<^verbatim>\<open>NULL\<close>. \<open>walk_result\<close> is
  what the loop does on a chain given as a list. A bucket is in order when its chain
  ends, its ids are strictly ascending and each id belongs to this bucket. \<open>splice\<close> is
  the effect of \<^verbatim>\<open>new->next = entry; *entry_p = new\<close> on the links and the table.
\<close>

fun path :: "links \<Rightarrow> addr option \<Rightarrow> addr list \<Rightarrow> addr option \<Rightarrow> bool" where
  "path lk p [] q \<longleftrightarrow> p = q"
| "path lk p (a # as) q \<longleftrightarrow>
     p = Some a \<and> (case lk a of None \<Rightarrow> False | Some l \<Rightarrow> path lk (snd l) as q)"

definition key_of :: "links \<Rightarrow> addr \<Rightarrow> u64" where
  "key_of lk a = fst (the (lk a))"

fun walk_result :: "links \<Rightarrow> u64 \<Rightarrow> slot \<Rightarrow> addr list \<Rightarrow> lookup" where
  "walk_result lk ident entry_p [] = Vacant entry_p None"
| "walk_result lk ident entry_p (a # as) =
    (if ident = key_of lk a then Found a
     else if ident < key_of lk a then Vacant entry_p (Some a)
     else walk_result lk ident (Next_field a) as)"

definition bucket_ok :: "nat \<Rightarrow> links \<Rightarrow> addr option \<Rightarrow> nat \<Rightarrow> addr list \<Rightarrow> bool" where
  "bucket_ok N lk head i as \<longleftrightarrow>
     path lk head as None \<and> sorted_wrt (<) (map (key_of lk) as) \<and>
     (\<forall>a\<in>set as. unat (key_of lk a) mod N = i)"

definition table_inv :: "nat \<Rightarrow> links \<Rightarrow> addr option list \<Rightarrow> bool" where
  "table_inv N lk table \<longleftrightarrow>
     0 < N \<and> N \<le> length table \<and> N < 2 ^ 31 \<and>
     (\<forall>i<length table. \<exists>as. bucket_ok N lk (table ! i) i as)"

definition splice ::
  "slot \<Rightarrow> addr \<Rightarrow> u64 \<Rightarrow> addr option \<Rightarrow> links \<times> addr option list \<Rightarrow> links \<times> addr option list" where
  "splice entry_p n ident entry lt =
    (case entry_p of
       Bucket i \<Rightarrow> ((fst lt)(n \<mapsto> (ident, entry)), (snd lt) [i := Some n])
     | Next_field a \<Rightarrow>
         (((fst lt)(n \<mapsto> (ident, entry)))(a \<mapsto> (key_of (fst lt) a, Some n)), snd lt))"

definition table_addrs :: "nat \<Rightarrow> links \<Rightarrow> addr option list \<Rightarrow> addr set" where
  "table_addrs N lk table = {a. \<exists>i<length table. \<exists>as. bucket_ok N lk (table ! i) i as \<and> a \<in> set as}"

definition inode_table_ok :: "nat \<Rightarrow> fsck \<Rightarrow> bool" where
  "inode_table_ok N s \<longleftrightarrow>
     (\<exists>table. v_inode_table s = Some table \<and> table_inv N (inode_links (inodes s)) table)"

definition inode_addrs :: "nat \<Rightarrow> fsck \<Rightarrow> addr set" where
  "inode_addrs N s = table_addrs N (inode_links (inodes s)) (the (v_inode_table s))"

definition inode_data :: "inode \<Rightarrow> inode" where
  "inode_data e = e \<lparr> i_next := None \<rparr>"

text \<open>What a call of get_inode that creates an inode leaves of the state s.\<close>

definition inode_added :: "u64 \<Rightarrow> fsck \<Rightarrow> fsck \<Rightarrow> bool" where
  "inode_added ino s s' \<longleftrightarrow>
     length (inodes s') = Suc (length (inodes s)) \<and>
     (\<exists>e. cell (inodes s') (length (inodes s)) = Some e \<and>
          inode_data e = inode_data (zero_inode \<lparr> i_ino := ino \<rparr>)) \<and>
     (\<forall>b e. cell (inodes s) b = Some e \<longrightarrow>
        (\<exists>e'. cell (inodes s') b = Some e' \<and> inode_data e' = inode_data e)) \<and>
     callocs_left s' = callocs_left s - 1 \<and>
     s' \<lparr> inodes := inodes s, v_inode_table := v_inode_table s,
          callocs_left := callocs_left s \<rparr> = s"

fun get_each ::
  "(u64 \<Rightarrow> 's \<Rightarrow> (addr \<times> 's) outcome option) \<Rightarrow> u64 list \<Rightarrow> 's
    \<Rightarrow> (addr list \<times> 's) outcome option" where
  "get_each get [] s = Some (Inr ([], s))"
| "get_each get (x # xs) s =
    (case get x s of
       None \<Rightarrow> None
     | Some (Inl e) \<Rightarrow> Some (Inl e)
     | Some (Inr (a, s')) \<Rightarrow>
         (case get_each get xs s' of
            None \<Rightarrow> None
          | Some (Inl e) \<Rightarrow> Some (Inl e)
          | Some (Inr (as, s'')) \<Rightarrow> Some (Inr (a # as, s''))))"

definition inode_at :: "nat \<Rightarrow> fsck \<Rightarrow> u64 \<Rightarrow> addr \<Rightarrow> bool" where
  "inode_at N s ino a \<longleftrightarrow>
     a \<in> inode_addrs N s \<and> key_of (inode_links (inodes s)) a = ino"

definition htable_ok :: "nat \<Rightarrow> 'z htable_mem_scheme \<Rightarrow> bool" where
  "htable_ok N m \<longleftrightarrow>
     (\<exists>table. h_table m = Some table \<and> table_inv N (htable_links (entries m)) table)"

definition htable_addrs :: "nat \<Rightarrow> 'z htable_mem_scheme \<Rightarrow> addr set" where
  "htable_addrs N m = table_addrs N (htable_links (entries m)) (the (h_table m))"

definition entry_data :: "htable_entry \<Rightarrow> htable_entry" where
  "entry_data e = e \<lparr> h_next := None \<rparr>"

definition entry_added ::
  "u64 \<Rightarrow> int \<Rightarrow> 'z htable_mem_scheme \<Rightarrow> 'z htable_mem_scheme \<Rightarrow> bool" where
  "entry_added ident sz m m' \<longleftrightarrow>
     length (entries m') = Suc (length (entries m)) \<and>
     (\<exists>e. cell (entries m') (length (entries m)) = Some e \<and>
          entry_data e = \<lparr> h_next = None, h_id = ident, h_size = sz \<rparr>) \<and>
     (\<forall>b e. cell (entries m) b = Some e \<longrightarrow>
        (\<exists>e'. cell (entries m') b = Some e' \<and> entry_data e' = entry_data e)) \<and>
     h_callocs_left m' = h_callocs_left m - 1 \<and>
     m' \<lparr> entries := entries m, h_table := h_table m,
          h_callocs_left := h_callocs_left m \<rparr> = m"

definition entry_at :: "nat \<Rightarrow> 'z htable_mem_scheme \<Rightarrow> u64 \<Rightarrow> addr \<Rightarrow> bool" where
  "entry_at N m ident a \<longleftrightarrow>
     a \<in> htable_addrs N m \<and> key_of (htable_links (entries m)) a = ident"

section \<open>Properties\<close>

lemma apfs_ino_nums_ok: "ino_nums_ok apfs_ino_nums"
  by (simp add: ino_nums_ok_def apfs_ino_nums_def virtual_dir_def)

text \<open>
  Claim C3. For every pair of an inode number and a parent number,
  \<^verbatim>\<open>check_inode_ids\<close> ends exactly as the policy table says: a sentinel used as the inode
  number is fatal; a virtual directory is legal only with the parent-of-root sentinel as
  its parent; any other reserved number is fatal; an ordinary number is fatal with an
  invalid, a parent-of-root or another reserved parent that is not a virtual directory,
  and returns otherwise.
\<close>

theorem check_inode_ids_policy:
  assumes "ino_nums_ok k"
  shows "check_inode_ids k ino parent_ino = ids_policy k ino parent_ino"
  using assms
  unfolding ino_nums_ok_def check_inode_ids_def ids_policy_def virtual_dir_def sentinel_def
  by auto

theorem check_inode_ids_policy_witness:
  "ino_nums_ok apfs_ino_nums \<and>
   check_inode_ids apfs_ino_nums 2 5 = ids_policy apfs_ino_nums 2 5 \<and>
   check_inode_ids apfs_ino_nums 2 5 = Inl (Report ''Root inode record'' ''bad parent id'') \<and>
   check_inode_ids apfs_ino_nums 2 1 = Inr () \<and>
   check_inode_ids apfs_ino_nums 20 3 = Inr () \<and>
   check_inode_ids apfs_ino_nums 20 7 = Inl (Report ''Inode record'' ''reserved parent inode number.'')"
proof -
  have "check_inode_ids apfs_ino_nums 2 5 = ids_policy apfs_ino_nums 2 5"
    by (rule check_inode_ids_policy [OF apfs_ino_nums_ok])
  moreover have "check_inode_ids apfs_ino_nums 2 5
      = Inl (Report ''Root inode record'' ''bad parent id'')"
    and "check_inode_ids apfs_ino_nums 2 1 = Inr ()"
    and "check_inode_ids apfs_ino_nums 20 3 = Inr ()"
    and "check_inode_ids apfs_ino_nums 20 7
      = Inl (Report ''Inode record'' ''reserved parent inode number.'')"
    by (simp_all add: check_inode_ids_def apfs_ino_nums_def report_def)
  ultimately show ?thesis
    using apfs_ino_nums_ok by simp
qed

text \<open>
  Claim C4. With the dstream table still live, the deferred check of a directory inode
  ends with one of the two directory reports exactly when the observed link count is
  not 1 or the declared child count differs from the observed one: "directory has hard
  links." when the link count is not 1, "wrong directory child count." when the link
  count is 1 and the child counts differ. The check of any other inode ends with "wrong
  link count." exactly when the declared link count differs from the observed one.
\<close>

theorem check_inode_stats_counts:
  assumes "dstreams = Some table"
  shows "(i_mode inode AND S_IFMT = S_IFDIR \<longrightarrow>
           ((check_inode_stats dstreams inode
               = Inl (Report ''Inode record'' ''directory has hard links.'')
             \<or> check_inode_stats dstreams inode
               = Inl (Report ''Inode record'' ''wrong directory child count.''))
            \<longleftrightarrow> (i_link_count inode \<noteq> 1 \<or> i_nchildren inode \<noteq> i_child_count inode)) \<and>
           (check_inode_stats dstreams inode
               = Inl (Report ''Inode record'' ''directory has hard links.'')
            \<longleftrightarrow> i_link_count inode \<noteq> 1) \<and>
           (check_inode_stats dstreams inode
               = Inl (Report ''Inode record'' ''wrong directory child count.'')
            \<longleftrightarrow> i_link_count inode = 1 \<and> i_nchildren inode \<noteq> i_child_count inode) \<and>
           check_inode_stats dstreams inode
               \<noteq> Inl (Report ''Inode record'' ''wrong link count.'')) \<and>
         (i_mode inode AND S_IFMT \<noteq> S_IFDIR \<longrightarrow>
           (check_inode_stats dstreams inode
               = Inl (Report ''Inode record'' ''wrong link count.'')
            \<longleftrightarrow> i_nlink inode \<noteq> i_link_count inode) \<and>
           check_inode_stats dstreams inode
               \<noteq> Inl (Report ''Inode record'' ''directory has hard links.'') \<and>
           check_inode_stats dstreams inode
               \<noteq> Inl (Report ''Inode record'' ''wrong directory child count.''))"
  using assms
  by (simp add: check_inode_stats_def then_do_def report_def Let_def)

theorem check_inode_stats_counts_witness:
  "Some dstreams_500 = Some dstreams_500 \<and>
   i_mode dir_3_children_seen_2 AND S_IFMT = S_IFDIR \<and>
   i_link_count dir_3_children_seen_2 = 1 \<and>
   i_nchildren dir_3_children_seen_2 \<noteq> i_child_count dir_3_children_seen_2 \<and>
   check_inode_stats (Some dstreams_500) dir_3_children_seen_2
     = Inl (Report ''Inode record'' ''wrong directory child count.'')"
proof -
  have d: "i_mode dir_3_children_seen_2 AND S_IFMT = S_IFDIR"
    by (simp add: dir_3_children_seen_2_def zero_inode_def S_IFMT_def S_IFDIR_def)
  have l: "i_link_count dir_3_children_seen_2 = 1"
    and n: "i_nchildren dir_3_children_seen_2 \<noteq> i_child_count dir_3_children_seen_2"
    by (simp_all add: dir_3_children_seen_2_def zero_inode_def)
  from check_inode_stats_counts [where table = dstreams_500 and inode = dir_3_children_seen_2, OF refl] d l n
  show ?thesis by simp
qed

text \<open>
  Claim C5, as the code has it. The report "some extents are missing." is what the
  deferred check ends with exactly when the link and child counts agree (an earlier
  report ends the run before the dstream is looked up) and the dstream found under the
  inode's private id has a size below the inode's declared size.
\<close>

theorem check_inode_stats_extents:
  assumes "dstreams = Some table"
  shows "check_inode_stats dstreams inode
           = Inl (Report ''Inode record'' ''some extents are missing.'')
         \<longleftrightarrow> counts_agree inode \<and> d_size (get_dstream (i_private_id inode) table) < i_size inode"
  using assms
  by (simp add: check_inode_stats_def counts_agree_def then_do_def report_def Let_def)

theorem check_inode_stats_extents_witness:
  "Some dstreams_500 = Some dstreams_500 \<and> counts_agree file_1000 \<and>
   d_size (get_dstream (i_private_id file_1000) dstreams_500) < i_size file_1000 \<and>
   check_inode_stats (Some dstreams_500) file_1000
     = Inl (Report ''Inode record'' ''some extents are missing.'')"
proof -
  have c: "counts_agree file_1000"
    by (simp add: counts_agree_def file_1000_def zero_inode_def S_IFMT_def S_IFDIR_def)
  have d: "d_size (get_dstream (i_private_id file_1000) dstreams_500) < i_size file_1000"
    by (simp add: get_dstream_def dstreams_500_def file_1000_def zero_inode_def)
  from check_inode_stats_extents [where table = dstreams_500 and inode = file_1000, OF refl] c d
  show ?thesis by simp
qed

text \<open>
  The claim as worded ("for every inode ... iff the dstream's size is below the declared
  size") fails for a directory with hard links whose dstream is short: the run ends
  with the report about the links, and the extents are never compared.
\<close>

theorem check_inode_stats_extents_counterexample:
  "\<not> (check_inode_stats (Some dstreams_500) dir_hard_linked_1000
        = Inl (Report ''Inode record'' ''some extents are missing.'')
      \<longleftrightarrow> d_size (get_dstream (i_private_id dir_hard_linked_1000) dstreams_500)
            < i_size dir_hard_linked_1000) \<and>
   check_inode_stats (Some dstreams_500) dir_hard_linked_1000
     = Inl (Report ''Inode record'' ''directory has hard links.'')"
  by (simp add: check_inode_stats_def then_do_def report_def Let_def get_dstream_def
      dstreams_500_def dir_hard_linked_1000_def zero_inode_def S_IFMT_def S_IFDIR_def)

subsection \<open>The extended fields\<close>

lemma int32_id: "- (2 ^ 31) \<le> x \<Longrightarrow> x < 2 ^ 31 \<Longrightarrow> int32 x = x"
  by (simp add: int32_def signed_take_bit_int_eq_self)

lemma as_size_t_id: "0 \<le> x \<Longrightarrow> x < 2 ^ 64 \<Longrightarrow> as_size_t x = x"
  by (simp add: as_size_t_def)










lemma length_takeWhile_take:
  "length (takeWhile P (take m xs)) = min m (length (takeWhile P xs))"
proof (induction xs arbitrary: m)
  case Nil
  then show ?case by simp
next
  case (Cons x xs)
  then show ?case by (cases m) simp_all
qed

lemma takeWhile_all: "length (takeWhile P xs) = length xs \<Longrightarrow> x \<in> set xs \<Longrightarrow> P x"
  by (metis takeWhile_eq_all_conv length_takeWhile_le takeWhile_eq_take take_all order_refl)

lemma strnlen_in_buf:
  assumes len: "1 \<le> len" and b: "in_buf buf xval (nat len)"
  shows "strnlen buf xval (len - 1) =
     Inr (int (min (nat len - 1) (length (takeWhile (\<lambda>b. b \<noteq> 0) (bytes_at buf xval (nat len))))))"
proof -
  define s where "s = bytes_at buf xval (nat len)"
  define n where "n = length (takeWhile (\<lambda>b. b \<noteq> 0) s)"
  have ls: "length s = nat len"
    using b len by (auto simp: s_def bytes_at_def in_buf_def)
  define s' where "s' = take (nat len - 1) s"
  define k where "k = length (takeWhile (\<lambda>b. b \<noteq> 0) s')"
  have s': "bytes_at buf xval (nat (len - 1)) = s'"
    using len by (simp add: s'_def s_def bytes_at_def min_def nat_diff_distrib)
  have ls': "int (length s') = len - 1"
    using ls len by (simp add: s'_def)
  have k: "k = min (nat len - 1) n"
    by (simp add: k_def s'_def length_takeWhile_take n_def)
  have kle: "k \<le> length s'"
    using length_takeWhile_le [of "\<lambda>b. b \<noteq> 0" s'] by (simp add: k_def)
  have x: "\<not> xval < 0"
    using b by (simp add: in_buf_def)
  have "strnlen buf xval (len - 1) =
      (if k < length s' then Inr (int k) else Inr (len - 1))"
    using x ls' unfolding strnlen_def s' Let_def k_def [symmetric] by simp
  also have "\<dots> = Inr (int k)"
    using kle ls' by auto
  finally show ?thesis
    by (simp add: k s_def [symmetric] n_def [symmetric])
qed

lemma xfield_len_name:
  assumes t: "rd8 buf (xfield_at R i + int (offsetof_x_type R)) = Inr t"
    and name: "ino_ext_type_of R t = Some APFS_INO_EXT_TYPE_NAME"
    and len: "1 \<le> len" "len < 2 ^ 31"
    and b: "in_buf buf xval (nat len)"
  shows "xfield_len R buf i len xval inode =
    (let s = bytes_at buf xval (nat len);
         n = length (takeWhile (\<lambda>b. b \<noteq> 0) s)
     in if n < length s then Inr (int n + 1, inode)
        else Inl (Report ''Inode xfield'' ''name with no null termination''))"
proof -
  define s where "s = bytes_at buf xval (nat len)"
  define n where "n = length (takeWhile (\<lambda>b. b \<noteq> 0) s)"
  define m where "m = min (nat len - 1) n"
  have ls: "length s = nat len"
    using b len by (auto simp: s_def bytes_at_def in_buf_def)
  have nle: "n \<le> nat len"
    using length_takeWhile_le [of "\<lambda>b. b \<noteq> 0" s] by (simp add: n_def ls)
  have m: "int m < len" "m < length s"
    using len by (simp_all add: m_def ls)
  have a: "as_size_t (len - 1) = len - 1"
    using len by (simp add: as_size_t_id)
  have sl: "strnlen buf xval (len - 1) = Inr (int m)"
    using strnlen_in_buf [OF len(1) b] by (simp add: m_def n_def s_def)
  have x32: "int32 (int m + 1) = int m + 1"
    using m len by (simp add: int32_id)
  have x: "0 \<le> xval" "xval + len \<le> int (length buf)"
    using b len by (simp_all add: in_buf_def)
  have rd: "rd8 buf (xval + int m) = Inr (s ! m)"
    using x m len by (simp add: rd8_def in_buf_def s_def bytes_at_def nat_add_distrib)
  have unf: "xfield_len R buf i len xval inode =
      (if s ! m \<noteq> 0 then Inl (Report ''Inode xfield'' ''name with no null termination'')
       else Inr (int m + 1, inode))"
    by (simp add: xfield_len_def t name then_do_def a sl x32 Let_def rd report_def)
  show ?thesis
  proof (cases "n < length s")
    case True
    then have "m = n"
      by (simp add: m_def ls)
    moreover have "s ! n = 0"
      using nth_length_takeWhile [of "\<lambda>b. b \<noteq> 0" s] True by (simp add: n_def)
    ultimately show ?thesis
      using True by (simp add: unf Let_def s_def [symmetric] n_def [symmetric])
  next
    case False
    then have n: "n = length s"
      using nle ls by simp
    then have "m = nat len - 1"
      by (simp add: m_def ls)
    have "s ! m \<in> set s"
      using m by simp
    then have "s ! m \<noteq> 0"
      using takeWhile_all [of "\<lambda>b. b \<noteq> 0" s] n by (simp add: n_def)
    then show ?thesis
      using False by (simp add: unf Let_def s_def [symmetric] n_def [symmetric])
  qed
qed

lemma check_padding_unfold:
  "check_padding buf xval n =
    (if n = 0 then Inr xval
     else then_do (rd8 buf xval)
      (\<lambda>b. if b \<noteq> 0 then report ''Inode xfield'' ''non-zero padding.''
            else check_padding buf (xval + 1) (n - 1)))"
  by (cases n) (simp_all cong del: if_weak_cong)


lemmas xf_eval = parse_inode_xfields_def rd_le16_def rd_le64_def rd8_def in_buf_def le16_at_def
  le64_at_def bytes_at_def as_size_t_def int32_def then_do_def report_def Let_def
  xfield_step_def xfield_len_def xfield_at_def read_dstream_xfield_def strnlen_def ROUND_UP_def
  apfs_raw_def apfs_ext_type_def upt_rec check_padding_unfold



text \<open>
  The length of a name is the position of the first zero byte among the remaining \<open>len\<close>
  bytes plus 1, and a name without one is fatal, provided at least one byte remains.
\<close>

lemma xfield_step_wrong_size:
  assumes "xfield_len R buf i len xval inode = Inr (xlen, inode')"
    and "in_buf buf (xfield_at R i + int (offsetof_x_size R)) 2"
    and "xlen \<noteq> x_size_of R buf i"
  shows "xfield_step R buf i (len, xval, inode) = Inl (Report ''Inode xfield'' ''wrong size'')"
  using assms
  by (simp add: xfield_step_def then_do_def rd_le16_def x_size_of_def report_def)

text \<open>
  Claim C2 fails on the code where no payload byte remains. The record value
  \<open>blob_empty_name\<close> has 8 bytes: a header that declares one field and no used bytes,
  and the descriptor of a name. All checks before the loop pass with \<open>len = 0\<close>, and
  \<^verbatim>\<open>strnlen(xval, len - 1)\<close> is called with the bound \<open>-1\<close> converted to \<^verbatim>\<open>size_t\<close>: the
  search for the terminator starts at the first byte after the value and is not
  bounded by it. With nothing readable there the read is a fault; with the bytes 0x41
  and 0 there, the length 2 is computed from them, which even agrees with a declared
  size of 2, and the run ends with another report.
\<close>

theorem name_xfield_reads_past_value:
  "parse_inode_xfields apfs_raw blob_empty_name 8 zero_inode = Inl Fault \<and>
   int (length blob_empty_name) = 8 \<and>
   xfield_len apfs_raw blob_empty_name_then_memory 0 0 8 zero_inode = Inr (2, zero_inode) \<and>
   parse_inode_xfields apfs_raw blob_empty_name_then_memory 8 zero_inode
     = Inl (Report ''Inode xfield'' ''does not fit in record value.'')"
  by (simp add: xf_eval blob_empty_name_def blob_empty_name_then_memory_def)

subsection \<open>Chains\<close>

lemma mod_less_bound: "0 < N \<Longrightarrow> N \<le> L \<Longrightarrow> (x::nat) mod N < L"
proof -
  assume N: "0 < N" "N \<le> L"
  have "x mod N < N" using N by simp
  also note N(2)
  finally show ?thesis .
qed

lemma path_append:
  "path lk p (xs @ ys) q \<longleftrightarrow> (\<exists>m. path lk p xs m \<and> path lk m ys q)"
  by (induction xs arbitrary: p) (auto split: option.splits)

lemma path_frame:
  "(\<And>a. a \<in> set as \<Longrightarrow> lk' a = lk a) \<Longrightarrow> path lk' p as q = path lk p as q"
  by (induction as arbitrary: p) (auto split: option.splits)

lemma path_live: "path lk p as q \<Longrightarrow> a \<in> set as \<Longrightarrow> lk a \<noteq> None"
  by (induction as arbitrary: p) (auto split: option.splits)

lemma path_unique: "path lk p as None \<Longrightarrow> path lk p bs None \<Longrightarrow> as = bs"
proof (induction as arbitrary: p bs)
  case Nil
  then show ?case by (cases bs) auto
next
  case (Cons a as)
  then show ?case by (cases bs) (auto split: option.splits)
qed

lemma sorted_keys_distinct: "sorted_wrt (<) (map (f :: addr \<Rightarrow> u64) as) \<Longrightarrow> distinct as"
  using distinct_map strict_sorted_iff by blast

lemma walk_chain_path:
  "path lk p as None \<Longrightarrow>
   walk_chain lk ident (entry_p, p) = Some (Inr (walk_result lk ident entry_p as))"
proof (induction as arbitrary: entry_p p)
  case Nil
  then show ?case by (subst walk_chain.simps) simp
next
  case (Cons a as)
  then obtain l where l: "p = Some a" "lk a = Some l" "path lk (snd l) as None"
    by (auto split: option.splits)
  show ?case
    by (subst walk_chain.simps) (simp add: l key_of_def Cons.IH [OF l(3)])
qed

lemma walk_result_Found:
  "walk_result lk ident entry_p as = Found a \<Longrightarrow> a \<in> set as \<and> key_of lk a = ident"
  by (induction as arbitrary: entry_p) (auto split: if_splits)

lemma walk_result_present:
  "sorted_wrt (<) (map (key_of lk) as) \<Longrightarrow> a \<in> set as \<Longrightarrow>
   walk_result lk (key_of lk a) entry_p as = Found a"
proof (induction as arbitrary: entry_p)
  case Nil
  then show ?case by simp
next
  case (Cons b bs)
  show ?case
  proof (cases "a = b")
    case True
    then show ?thesis by simp
  next
    case False
    with Cons.prems have in_bs: "a \<in> set bs" and lt: "key_of lk b < key_of lk a"
      by auto
    with Cons show ?thesis by auto
  qed
qed

lemma walk_result_Vacant:
  "walk_result lk ident entry_p as = Vacant entry_p' entry \<Longrightarrow>
   \<exists>pre post. as = pre @ post \<and> (\<forall>x\<in>set pre. key_of lk x < ident) \<and>
     (case post of [] \<Rightarrow> entry = None | b # _ \<Rightarrow> entry = Some b \<and> ident < key_of lk b) \<and>
     entry_p' = (if pre = [] then entry_p else Next_field (last pre))"
proof (induction as arbitrary: entry_p)
  case Nil
  then show ?case by simp
next
  case (Cons a as)
  show ?case
  proof (cases "ident < key_of lk a")
    case True
    with Cons.prems have "entry = Some a" "entry_p' = entry_p"
      by (auto split: if_splits)
    with True show ?thesis
      by (intro exI [of _ "[]"] exI [of _ "a # as"]) simp
  next
    case False
    with Cons.prems have ne: "ident \<noteq> key_of lk a"
      and rest: "walk_result lk ident (Next_field a) as = Vacant entry_p' entry"
      by (auto split: if_splits)
    from Cons.IH [OF rest] obtain pre post where
      p: "as = pre @ post" "\<forall>x\<in>set pre. key_of lk x < ident"
        "case post of [] \<Rightarrow> entry = None | b # _ \<Rightarrow> entry = Some b \<and> ident < key_of lk b"
        "entry_p' = (if pre = [] then Next_field a else Next_field (last pre))"
      by blast
    have "key_of lk a < ident"
      using False ne by simp
    with p show ?thesis
      by (intro exI [of _ "a # pre"] exI [of _ post]) auto
  qed
qed

lemma path_head: "path lk m post q \<Longrightarrow> post \<noteq> [] \<Longrightarrow> m = Some (hd post)"
  by (cases post) auto

lemma path_insert_front:
  assumes "path lk head post None" and "n \<notin> set post"
  shows "path (lk(n \<mapsto> (ident, head))) (Some n) (n # post) None"
proof -
  have "path (lk(n \<mapsto> (ident, head))) head post None = path lk head post None"
    using assms(2) by (intro path_frame) auto
  with assms(1) show ?thesis by simp
qed

lemma path_insert_after:
  assumes p: "path lk head (pre @ a # post) None"
    and d: "distinct (pre @ a # post)"
    and n: "n \<notin> set (pre @ a # post)"
    and e: "entry = (case post of [] \<Rightarrow> None | b # _ \<Rightarrow> Some b)"
  shows "path ((lk(n \<mapsto> (ident, entry)))(a \<mapsto> (key_of lk a, Some n))) head
           (pre @ a # n # post) None"
proof -
  define lk' where "lk' = (lk(n \<mapsto> (ident, entry)))(a \<mapsto> (key_of lk a, Some n))"
  from p obtain m l where pre: "path lk head pre (Some a)" and l: "lk a = Some l"
    and post: "path lk (snd l) post None"
    by (auto simp: path_append split: option.splits)
  have m: "snd l = entry"
    using post e by (cases post) auto
  have 1: "path lk' head pre (Some a) = path lk head pre (Some a)"
    using d n by (intro path_frame) (auto simp: lk'_def)
  have 2: "path lk' entry post None = path lk entry post None"
    using d n by (intro path_frame) (auto simp: lk'_def)
  have na: "n \<noteq> a"
    using n by auto
  have "path lk' (Some a) (a # n # post) None"
    using post m 2 na by (simp add: lk'_def)
  with pre 1 show ?thesis
    unfolding lk'_def [symmetric] by (auto simp: path_append)
qed

lemma splice_key_old:
  "x \<noteq> n \<Longrightarrow> key_of (fst (splice entry_p n ident entry (lk, tb))) x = key_of lk x"
  by (cases entry_p) (auto simp: splice_def key_of_def)

lemma splice_key_new:
  "entry_p \<noteq> Next_field n \<Longrightarrow> key_of (fst (splice entry_p n ident entry (lk, tb))) n = ident"
  by (cases entry_p) (auto simp: splice_def key_of_def)

lemma splice_live:
  "lk x \<noteq> None \<Longrightarrow> fst (splice entry_p n ident entry (lk, tb)) x \<noteq> None"
  by (cases entry_p) (auto simp: splice_def)

lemma splice_length: "length (snd (splice entry_p n ident entry (lk, tb))) = length tb"
  by (cases entry_p) (auto simp: splice_def)

lemma sorted_insert_keys:
  assumes s: "sorted_wrt (<) (map f (pre @ post))"
    and lo: "\<forall>x\<in>set pre. f x < (k :: u64)"
    and hi: "case post of [] \<Rightarrow> True | b # _ \<Rightarrow> k < f b"
  shows "sorted_wrt (<) (map f pre @ k # map f post)"
proof -
  have "\<forall>y\<in>set post. k < f y"
  proof (cases post)
    case Nil
    then show ?thesis by simp
  next
    case (Cons b bs)
    with s have "\<forall>y\<in>set bs. f b < f y"
      by (auto simp: sorted_wrt_append)
    with hi Cons show ?thesis by auto
  qed
  with s lo show ?thesis
    by (auto simp: sorted_wrt_append)
qed

lemma splice_bucket:
  assumes b: "bucket_ok N lk (tb ! i0) i0 as"
    and i0: "i0 < length tb" "unat ident mod N = i0"
    and w: "walk_result lk ident (Bucket i0) as = Vacant entry_p entry"
    and fresh: "lk n = None"
    and sp: "splice entry_p n ident entry (lk, tb) = (lk', tb')"
  shows "\<exists>as'. bucket_ok N lk' (tb' ! i0) i0 as' \<and> set as' = insert n (set as)"
proof -
  from b have p: "path lk (tb ! i0) as None"
    and srt: "sorted_wrt (<) (map (key_of lk) as)"
    and hash: "\<forall>a\<in>set as. unat (key_of lk a) mod N = i0"
    by (simp_all add: bucket_ok_def)
  have d: "distinct as"
    using srt by (rule sorted_keys_distinct)
  have n: "n \<notin> set as"
    using path_live [OF p, of n] fresh by blast
  from walk_result_Vacant [OF w] obtain pre post where
    as: "as = pre @ post" and lo: "\<forall>x\<in>set pre. key_of lk x < ident"
    and hi: "case post of [] \<Rightarrow> entry = None | b # _ \<Rightarrow> entry = Some b \<and> ident < key_of lk b"
    and ep: "entry_p = (if pre = [] then Bucket i0 else Next_field (last pre))"
    by blast
  have e: "entry = (case post of [] \<Rightarrow> None | b # _ \<Rightarrow> Some b)"
    using hi by (cases post) auto
  have hi': "case post of [] \<Rightarrow> True | b # _ \<Rightarrow> ident < key_of lk b"
    using hi by (cases post) auto
  have ne: "entry_p \<noteq> Next_field n"
    using ep n as by (cases "pre = []") auto
  have keys: "key_of lk' x = key_of lk x" if "x \<in> set as" for x
    using splice_key_old [of x n entry_p ident entry lk tb] that n sp by auto
  have keyn: "key_of lk' n = ident"
    using splice_key_new [OF ne, of ident entry lk tb] sp by simp
  define as' where "as' = pre @ n # post"
  have set': "set as' = insert n (set as)"
    by (auto simp: as'_def as)
  have "map (key_of lk') as' = map (key_of lk) pre @ ident # map (key_of lk) post"
    using keys keyn by (simp add: as'_def as)
  then have srt': "sorted_wrt (<) (map (key_of lk') as')"
    using sorted_insert_keys [OF srt [unfolded as] lo hi'] by simp
  have hash': "\<forall>a\<in>set as'. unat (key_of lk' a) mod N = i0"
    using hash keys keyn i0 by (auto simp: set')
  have path': "path lk' (tb' ! i0) as' None"
  proof (cases "pre = []")
    case True
    then have "entry_p = Bucket i0"
      using ep by simp
    with sp have lk': "lk' = lk(n \<mapsto> (ident, entry))" and tb': "tb' = tb [i0 := Some n]"
      by (auto simp: splice_def)
    have "entry = tb ! i0"
      using p True as e by (cases post) auto
    with path_insert_front [of lk "tb ! i0" post n ident] p n True as
    show ?thesis
      using i0 by (simp add: lk' tb' as'_def)
  next
    case False
    then obtain pre' a where pre: "pre = pre' @ [a]"
      by (metis rev_exhaust)
    then have "entry_p = Next_field a"
      using ep by simp
    with sp have lk': "lk' = (lk(n \<mapsto> (ident, entry)))(a \<mapsto> (key_of lk a, Some n))"
      and tb': "tb' = tb"
      by (auto simp: splice_def)
    from path_insert_after [of lk "tb ! i0" pre' a post n entry ident] p d n e
    show ?thesis
      by (simp add: lk' tb' as'_def as pre)
  qed
  from path' srt' hash' have "bucket_ok N lk' (tb' ! i0) i0 as'"
    by (simp add: bucket_ok_def)
  with set' show ?thesis
    by blast
qed

lemma splice_other:
  assumes b: "bucket_ok N lk (tb ! i0) i0 as"
    and w: "walk_result lk ident (Bucket i0) as = Vacant entry_p entry"
    and fresh: "lk n = None"
    and sp: "splice entry_p n ident entry (lk, tb) = (lk', tb')"
    and j: "j \<noteq> i0" "bucket_ok N lk (tb ! j) j bs"
  shows "bucket_ok N lk' (tb' ! j) j bs"
proof -
  from j have p: "path lk (tb ! j) bs None"
    and srt: "sorted_wrt (<) (map (key_of lk) bs)"
    and hash: "\<forall>a\<in>set bs. unat (key_of lk a) mod N = j"
    by (simp_all add: bucket_ok_def)
  from b have hash0: "\<forall>a\<in>set as. unat (key_of lk a) mod N = i0"
    by (simp add: bucket_ok_def)
  have n: "n \<notin> set bs"
    using path_live [OF p, of n] fresh by blast
  from walk_result_Vacant [OF w] obtain pre post where
    as: "as = pre @ post"
    and ep: "entry_p = (if pre = [] then Bucket i0 else Next_field (last pre))"
    by blast
  have same: "lk' x = lk x" if "x \<in> set bs" for x
  proof (cases "pre = []")
    case True
    with ep sp that n show ?thesis
      by (auto simp: splice_def)
  next
    case False
    then have "last pre \<in> set as"
      using as by simp
    with hash0 hash that j(1) have "x \<noteq> last pre"
      by auto
    with False ep sp that n show ?thesis
      by (auto simp: splice_def)
  qed
  have tb: "tb' ! j = tb ! j"
    using ep sp j(1) by (cases "pre = []") (auto simp: splice_def)
  have keys: "map (key_of lk') bs = map (key_of lk) bs"
    using same by (simp add: key_of_def)
  have hash': "\<forall>a\<in>set bs. unat (key_of lk' a) mod N = j"
    using hash same by (simp add: key_of_def)
  have srt': "sorted_wrt (<) (map (key_of lk') bs)"
    using srt by (simp only: keys)
  have "path lk' (tb' ! j) bs None"
    using path_frame [of bs lk' lk "tb ! j" None] same p by (simp add: tb)
  with srt' hash' show ?thesis
    by (simp add: bucket_ok_def)
qed

lemma splice_table_inv:
  assumes inv: "table_inv N lk tb"
    and b: "bucket_ok N lk (tb ! (unat ident mod N)) (unat ident mod N) as"
    and w: "walk_result lk ident (Bucket (unat ident mod N)) as = Vacant entry_p entry"
    and fresh: "lk n = None"
    and sp: "splice entry_p n ident entry (lk, tb) = (lk', tb')"
  shows "table_inv N lk' tb'"
proof -
  define i0 where "i0 = unat ident mod N"
  from inv have N: "0 < N" "N \<le> length tb" "N < 2 ^ 31"
    and all: "\<forall>i<length tb. \<exists>bs. bucket_ok N lk (tb ! i) i bs"
    by (simp_all add: table_inv_def)
  have i0: "i0 < length tb"
    unfolding i0_def using N(1,2) by (rule mod_less_bound)
  have len: "length tb' = length tb"
    using splice_length [of entry_p n ident entry lk tb] sp by simp
  have "\<exists>bs. bucket_ok N lk' (tb' ! j) j bs" if "j < length tb" for j
  proof (cases "j = i0")
    case True
    with splice_bucket [OF b [folded i0_def] i0 _ w [folded i0_def] fresh sp] show ?thesis
      by (auto simp: i0_def)
  next
    case False
    from all that obtain bs where "bucket_ok N lk (tb ! j) j bs"
      by blast
    from splice_other [OF b [folded i0_def] w [folded i0_def] fresh sp False this]
    show ?thesis by blast
  qed
  with N len show ?thesis
    by (simp add: table_inv_def)
qed

subsection \<open>The inode table\<close>

lemma index_of_eq:
  assumes "0 < N" "N < 2 ^ 31"
  shows "index_of N ident = int (unat ident mod N)"
proof -
  have "unat ident mod N < N"
    using assms by simp
  also note assms(2)
  finally have "unat ident mod N < 2 ^ 31" .
  then have "int (unat ident mod N) < 2 ^ 31"
    by (simp only: of_nat_less_numeral_power_cancel_iff)
  then show ?thesis
    by (simp add: index_of_def int32_id)
qed

lemma table_inv_bucket:
  assumes "table_inv N lk tb"
  obtains as where "bucket_ok N lk (tb ! (unat ident mod N)) (unat ident mod N) as"
    and "unat ident mod N < length tb"
proof -
  from assms have N: "0 < N" "N \<le> length tb"
    and all: "\<forall>i<length tb. \<exists>bs. bucket_ok N lk (tb ! i) i bs"
    by (simp_all add: table_inv_def)
  have "unat ident mod N < length tb"
    using N by (rule mod_less_bound)
  with all that show thesis by blast
qed

lemma table_addrs_bucket:
  assumes inv: "table_inv N lk tb" and a: "a \<in> table_addrs N lk tb"
    and b: "bucket_ok N lk (tb ! (unat (key_of lk a) mod N)) (unat (key_of lk a) mod N) as"
  shows "a \<in> set as"
proof -
  from a obtain i bs where i: "i < length tb" "bucket_ok N lk (tb ! i) i bs" "a \<in> set bs"
    by (auto simp: table_addrs_def)
  then have "unat (key_of lk a) mod N = i"
    by (auto simp: bucket_ok_def)
  with i b have "path lk (tb ! i) as None" "path lk (tb ! i) bs None"
    by (auto simp: bucket_ok_def)
  then have "as = bs"
    by (rule path_unique)
  with i show ?thesis by simp
qed

lemma table_addrs_live: "a \<in> table_addrs N lk tb \<Longrightarrow> lk a \<noteq> None"
  by (auto simp: table_addrs_def bucket_ok_def dest: path_live)

lemma walk_chain_table:
  assumes inv: "table_inv N lk tb"
    and b: "bucket_ok N lk (tb ! (unat ident mod N)) (unat ident mod N) as"
  shows "walk_chain lk ident (Bucket (unat ident mod N), tb ! (unat ident mod N))
           = Some (Inr (walk_result lk ident (Bucket (unat ident mod N)) as))"
  using b by (intro walk_chain_path) (simp add: bucket_ok_def)

lemma walk_result_table_present:
  assumes inv: "table_inv N lk tb" and a: "a \<in> table_addrs N lk tb"
    and b: "bucket_ok N lk (tb ! (unat (key_of lk a) mod N)) (unat (key_of lk a) mod N) as"
  shows "walk_result lk (key_of lk a) entry_p as = Found a"
  using table_addrs_bucket [OF inv a b] b
  by (intro walk_result_present) (simp_all add: bucket_ok_def)

lemma splice_table_addrs:
  assumes inv: "table_inv N lk tb"
    and b: "bucket_ok N lk (tb ! (unat ident mod N)) (unat ident mod N) as"
    and w: "walk_result lk ident (Bucket (unat ident mod N)) as = Vacant entry_p entry"
    and fresh: "lk n = None"
    and sp: "splice entry_p n ident entry (lk, tb) = (lk', tb')"
  shows "table_addrs N lk' tb' = insert n (table_addrs N lk tb)"
proof -
  define i0 where "i0 = unat ident mod N"
  obtain dummy where i0: "i0 < length tb"
    using table_inv_bucket [OF inv, of ident] by (auto simp: i0_def)
  have len: "length tb' = length tb"
    using splice_length [of entry_p n ident entry lk tb] sp by simp
  from splice_bucket [OF b [folded i0_def] i0 _ w [folded i0_def] fresh sp]
  obtain as' where as': "bucket_ok N lk' (tb' ! i0) i0 as'" "set as' = insert n (set as)"
    by (auto simp: i0_def)
  note other = splice_other [OF b [folded i0_def] w [folded i0_def] fresh sp]
  have inv': "table_inv N lk' tb'"
    using splice_table_inv [OF inv b w fresh sp] .
  show ?thesis
  proof (intro set_eqI iffI)
    fix x
    assume "x \<in> table_addrs N lk' tb'"
    then obtain j bs where j: "j < length tb'" "bucket_ok N lk' (tb' ! j) j bs" "x \<in> set bs"
      by (auto simp: table_addrs_def)
    show "x \<in> insert n (table_addrs N lk tb)"
    proof (cases "j = i0")
      case True
      with j as' have "bs = as'"
        by (auto simp: bucket_ok_def intro: path_unique)
      with j as' b i0 show ?thesis
        by (auto simp: table_addrs_def i0_def)
    next
      case False
      from inv j len obtain cs where cs: "bucket_ok N lk (tb ! j) j cs"
        by (auto simp: table_inv_def)
      from other [OF False cs] j have "bs = cs"
        by (auto simp: bucket_ok_def intro: path_unique)
      with j cs len show ?thesis
        by (auto simp: table_addrs_def)
    qed
  next
    fix x
    assume "x \<in> insert n (table_addrs N lk tb)"
    then consider "x = n" | "x \<in> table_addrs N lk tb"
      by auto
    then show "x \<in> table_addrs N lk' tb'"
    proof cases
      case 1
      with as' i0 len show ?thesis
        by (auto simp: table_addrs_def)
    next
      case 2
      then obtain j bs where j: "j < length tb" "bucket_ok N lk (tb ! j) j bs" "x \<in> set bs"
        by (auto simp: table_addrs_def)
      show ?thesis
      proof (cases "j = i0")
        case True
        with j b have "bs = as"
          by (auto simp: bucket_ok_def i0_def intro: path_unique)
        with j as' i0 len show ?thesis
          by (auto simp: table_addrs_def)
      next
        case False
        from other [OF False j(2)] j len show ?thesis
          by (auto simp: table_addrs_def)
      qed
    qed
  qed
qed

lemma cell_append: "cell (h @ [x]) a = (if a = length h then x else cell h a)"
  by (auto simp: cell_def nth_append)

lemma cell_update: "cell (h [a := x]) b = (if b = a \<and> a < length h then x else cell h b)"
  by (auto simp: cell_def)

lemma inode_links_append:
  "inode_links (h @ [Some obj]) = (inode_links h)(length h \<mapsto> (i_ino obj, i_next obj))"
  by (rule ext) (simp add: inode_links_def cell_append)

lemma inode_links_set_next:
  "cell h a = Some e \<Longrightarrow>
   inode_links (h [a := Some (e \<lparr> i_next := v \<rparr>)]) = (inode_links h)(a \<mapsto> (i_ino e, v))"
  by (rule ext) (auto simp: inode_links_def cell_update cell_def split: if_splits)

lemma inode_links_fresh: "inode_links h (length h) = None"
  by (simp add: inode_links_def cell_def)

lemma inode_links_key: "cell h a = Some e \<Longrightarrow> key_of (inode_links h) a = i_ino e"
  by (simp add: key_of_def inode_links_def)

lemma inode_links_live: "inode_links h a \<noteq> None \<longleftrightarrow> cell h a \<noteq> None"
  by (simp add: inode_links_def)

lemma get_inode_found:
  assumes ok: "inode_table_ok N s" and a: "a \<in> inode_addrs N s"
  shows "get_inode N (key_of (inode_links (inodes s)) a) s = Some (Inr (a, s))"
proof -
  define lk where "lk = inode_links (inodes s)"
  define ino where "ino = key_of lk a"
  from ok obtain tb where tb: "v_inode_table s = Some tb" and inv: "table_inv N lk tb"
    by (auto simp: inode_table_ok_def lk_def)
  from inv have N: "0 < N" "N < 2 ^ 31"
    by (simp_all add: table_inv_def)
  obtain as where b: "bucket_ok N lk (tb ! (unat ino mod N)) (unat ino mod N) as"
    and i: "unat ino mod N < length tb"
    using table_inv_bucket [OF inv] by blast
  have a': "a \<in> table_addrs N lk tb"
    using a by (simp add: inode_addrs_def tb lk_def)
  have w: "walk_chain lk ino (Bucket (unat ino mod N), tb ! (unat ino mod N))
      = Some (Inr (Found a))"
    using walk_chain_table [OF inv b]
      walk_result_table_present [OF inv a' b [unfolded ino_def]]
    by (simp add: ino_def)
  show ?thesis
    using N i
    by (simp add: get_inode_def tb index_of_eq [OF N] Let_def w
        lk_def [symmetric] ino_def [symmetric])
qed

lemma get_inode_absent:
  assumes ok: "inode_table_ok N s"
    and absent: "\<forall>a\<in>inode_addrs N s. key_of (inode_links (inodes s)) a \<noteq> ino"
  shows "if callocs_left s = 0 then get_inode N ino s = Some (Inl Exit)
         else \<exists>s'. get_inode N ino s = Some (Inr (length (inodes s), s')) \<and>
                inode_table_ok N s' \<and>
                inode_addrs N s' = insert (length (inodes s)) (inode_addrs N s) \<and>
                inode_added ino s s'"
proof -
  define lk where "lk = inode_links (inodes s)"
  define n where "n = length (inodes s)"
  define i0 where "i0 = unat ino mod N"
  from ok obtain tb where tb: "v_inode_table s = Some tb" and inv: "table_inv N lk tb"
    by (auto simp: inode_table_ok_def lk_def)
  from inv have N: "0 < N" "N < 2 ^ 31"
    by (simp_all add: table_inv_def)
  obtain as where b: "bucket_ok N lk (tb ! i0) i0 as" and i: "i0 < length tb"
    using table_inv_bucket [OF inv, of ino] by (auto simp: i0_def)
  have sub: "set as \<subseteq> table_addrs N lk tb"
    using b i by (auto simp: table_addrs_def)
  have "walk_result lk ino (Bucket i0) as \<noteq> Found a" for a
    using walk_result_Found [of lk ino "Bucket i0" as a] sub absent
    by (auto simp: inode_addrs_def tb lk_def)
  then obtain entry_p entry where wr: "walk_result lk ino (Bucket i0) as = Vacant entry_p entry"
    by (cases "walk_result lk ino (Bucket i0) as") auto
  have w: "walk_chain lk ino (Bucket i0, tb ! i0) = Some (Inr (Vacant entry_p entry))"
    using walk_chain_table [OF inv b [unfolded i0_def]] wr by (simp add: i0_def)
  have unf: "get_inode N ino s =
      (if callocs_left s = 0 then Some (Inl Exit)
       else Some (then_do
         (store_inode_slot entry_p (Some n)
           (s \<lparr> inodes := inodes s @ [Some (zero_inode \<lparr> i_seen := False, i_ino := ino,
                                                   i_next := entry \<rparr>)],
                callocs_left := callocs_left s - 1 \<rparr>))
         (\<lambda>s2. Inr (n, s2))))"
    using N i
    by (simp add: get_inode_def tb index_of_eq [OF N] Let_def w
        lk_def [symmetric] i0_def [symmetric] n_def)
  show ?thesis
  proof (cases "callocs_left s = 0")
    case True
    then show ?thesis by (simp add: unf)
  next
    case False
    define obj where "obj = zero_inode \<lparr> i_seen := False, i_ino := ino, i_next := entry \<rparr>"
    define s1 where "s1 = s \<lparr> inodes := inodes s @ [Some obj],
        callocs_left := callocs_left s - 1 \<rparr>"
    have fresh: "lk n = None"
      by (simp add: lk_def n_def inode_links_fresh)
    from walk_result_Vacant [OF wr] obtain pre post where
      as: "as = pre @ post"
      and ep: "entry_p = (if pre = [] then Bucket i0 else Next_field (last pre))"
      by blast
    have "\<exists>s'. store_inode_slot entry_p (Some n) s1 = Inr s' \<and>
        (\<exists>tb'. v_inode_table s' = Some tb' \<and>
           splice entry_p n ino entry (lk, tb) = (inode_links (inodes s'), tb')) \<and>
        inode_added ino s s'"
    proof (cases "pre = []")
      case True
      then have e: "entry_p = Bucket i0"
        using ep by simp
      have za: "zero_inode\<lparr>i_seen := False, i_ino := ino, i_next := None\<rparr> = zero_inode\<lparr>i_ino := ino, i_next := None\<rparr>"
        by (simp add: zero_inode_def)
      show ?thesis
        using i
        apply (simp add: e store_inode_slot_def s1_def tb splice_def inode_links_append obj_def
            lk_def n_def inode_added_def cell_append inode_data_def za)
        apply (auto simp: cell_def)
        done
    next
      case False
      then have e: "entry_p = Next_field (last pre)"
        using ep by simp
      define a where "a = last pre"
      have "a \<in> set as"
        using False as by (simp add: a_def)
      then have "lk a \<noteq> None"
        using b path_live by (auto simp: bucket_ok_def)
      then obtain c where c: "cell (inodes s) a = Some c"
        by (auto simp: lk_def inode_links_def)
      then have an: "a < n" "a \<noteq> n"
        by (auto simp: cell_def n_def split: if_splits)
      have c1: "cell (inodes s @ [Some obj]) a = Some c"
        using c an by (simp add: cell_append n_def)
      have k: "key_of lk a = i_ino c"
        using c by (simp add: lk_def inode_links_key)
      define s' where "s' = s1 \<lparr> inodes := (inodes s @ [Some obj])
          [a := Some (c \<lparr> i_next := Some n \<rparr>)] \<rparr>"
      have st: "store_inode_slot entry_p (Some n) s1 = Inr s'"
        by (simp add: e a_def [symmetric] store_inode_slot_def s1_def c1 s'_def)
      have t': "v_inode_table s' = Some tb"
        by (simp add: s'_def s1_def tb)
      have o: "i_ino obj = ino" "i_next obj = entry"
        by (simp_all add: obj_def)
      have "inode_links (inodes s') = (lk(n \<mapsto> (ino, entry)))(a \<mapsto> (i_ino c, Some n))"
        by (simp add: s'_def s1_def inode_links_set_next [OF c1] inode_links_append o
            lk_def n_def)
      then have sp: "splice entry_p n ino entry (lk, tb) = (inode_links (inodes s'), tb)"
        by (simp add: e a_def [symmetric] splice_def k)
      have len: "length (inodes s') = Suc (length (inodes s))"
        by (simp add: s'_def s1_def)
      have new: "cell (inodes s') n = Some obj"
        using an by (simp add: s'_def s1_def cell_update cell_append n_def)
      have old: "\<exists>e'. cell (inodes s') x = Some e' \<and> inode_data e' = inode_data y"
        if "cell (inodes s) x = Some y" for x y
      proof (cases "x = a")
        case True
        with that c have "y = c" by simp
        with True an show ?thesis
          by (simp add: s'_def s1_def cell_update n_def inode_data_def)
      next
        case False
        have "x \<noteq> n"
          using that by (auto simp: cell_def n_def split: if_splits)
        with False that show ?thesis
          by (simp add: s'_def s1_def cell_update cell_append n_def)
      qed
      have rest: "s' \<lparr> inodes := inodes s, v_inode_table := v_inode_table s,
          callocs_left := callocs_left s \<rparr> = s"
        by (simp add: s'_def s1_def)
      have "inode_added ino s s'"
        unfolding inode_added_def
        using len new old rest
        by (auto simp: n_def [symmetric] obj_def inode_data_def zero_inode_def s'_def s1_def)
      with st t' sp show ?thesis
        by blast
    qed
    then obtain s' tb' where st: "store_inode_slot entry_p (Some n) s1 = Inr s'"
      and tb': "v_inode_table s' = Some tb'"
      and sp: "splice entry_p n ino entry (lk, tb) = (inode_links (inodes s'), tb')"
      and add: "inode_added ino s s'"
      by blast
    have g: "get_inode N ino s = Some (Inr (n, s'))"
      using False st by (simp add: unf s1_def obj_def then_do_def)
    have ok': "inode_table_ok N s'"
      using splice_table_inv [OF inv b [unfolded i0_def] wr [unfolded i0_def] fresh sp] tb'
      by (auto simp: inode_table_ok_def)
    have addrs: "inode_addrs N s' = insert n (inode_addrs N s)"
      using splice_table_addrs [OF inv b [unfolded i0_def] wr [unfolded i0_def] fresh sp]
      by (simp add: inode_addrs_def tb tb' lk_def)
    from False g ok' addrs add show ?thesis
      by (auto simp: n_def)
  qed
qed

lemma get_each_invariant:
  assumes step: "\<And>x s a s'. I s \<Longrightarrow> get x s = Some (Inr (a, s')) \<Longrightarrow>
                   I s' \<and> at s' x a \<and> (\<forall>y b. at s y b \<longrightarrow> at s' y b)"
    and uniq: "\<And>s x a b. I s \<Longrightarrow> at s x a \<Longrightarrow> at s x b \<Longrightarrow> a = b"
    and I: "I s" and run: "get_each get ids s = Some (Inr (as, s'))"
  shows "I s' \<and> length as = length ids \<and> (\<forall>y b. at s y b \<longrightarrow> at s' y b) \<and>
         (\<forall>i<length ids. at s' (ids ! i) (as ! i)) \<and>
         (\<forall>i<length ids. \<forall>j<length ids. ids ! i = ids ! j \<longrightarrow> as ! i = as ! j)"
  using I run
proof (induction ids arbitrary: s as)
  case Nil
  then show ?case by simp
next
  case (Cons x xs)
  from Cons.prems(2) obtain a s1 bs where
    g: "get x s = Some (Inr (a, s1))" and r: "get_each get xs s1 = Some (Inr (bs, s'))"
    and as: "as = a # bs"
    by (auto split: option.splits sum.splits prod.splits)
  from step [OF Cons.prems(1) g] have s1: "I s1" "at s1 x a" "\<forall>y b. at s y b \<longrightarrow> at s1 y b"
    by simp_all
  note ih0 = Cons.IH [OF s1(1) r]
  have ih: "I s'" "length bs = length xs"
    "\<forall>y b. at s1 y b \<longrightarrow> at s' y b" "\<forall>i<length xs. at s' (xs ! i) (bs ! i)"
    using ih0 by blast+
  have at: "at s' ((x # xs) ! i) (as ! i)" if "i < length (x # xs)" for i
  proof (cases i)
    case 0
    then show ?thesis using s1(2) ih(3) by (simp add: as)
  next
    case (Suc k)
    with that have "k < length xs" by simp
    with ih(4) Suc show ?thesis by (simp add: as)
  qed
  have eq: "as ! i = as ! j"
    if "i < length (x # xs)" "j < length (x # xs)" "(x # xs) ! i = (x # xs) ! j" for i j
  proof -
    have "at s' ((x # xs) ! i) (as ! i)" "at s' ((x # xs) ! i) (as ! j)"
      using at [OF that(1)] at [OF that(2)] that(3) by simp_all
    then show ?thesis
      by (rule uniq [OF ih(1)])
  qed
  have keep: "\<forall>y b. at s y b \<longrightarrow> at s' y b"
    using s1(3) ih(3) by blast
  have len: "length as = length (x # xs)"
    using ih(2) by (simp add: as)
  from ih(1) len keep at eq show ?case
    by blast
qed

lemma get_each_total:
  assumes step: "\<And>x s a s'. I s \<Longrightarrow> get x s = Some (Inr (a, s')) \<Longrightarrow> I s'"
    and total: "\<And>x s. I s \<Longrightarrow> get x s = Some (Inl Exit) \<or> (\<exists>a s'. get x s = Some (Inr (a, s')))"
    and I: "I s"
  shows "get_each get ids s = Some (Inl Exit) \<or> (\<exists>as s'. get_each get ids s = Some (Inr (as, s')))"
  using I
proof (induction ids arbitrary: s)
  case Nil
  then show ?case by simp
next
  case (Cons x xs)
  from total [OF Cons.prems, of x] show ?case
  proof
    assume "get x s = Some (Inl Exit)"
    then show ?thesis by simp
  next
    assume "\<exists>a s'. get x s = Some (Inr (a, s'))"
    then obtain a s1 where g: "get x s = Some (Inr (a, s1))" by blast
    from Cons.IH [OF step [OF Cons.prems g]] g show ?thesis
      by auto
  qed
qed

lemma inode_added_key:
  assumes "inode_added ino s s'" and "cell (inodes s) b \<noteq> None"
  shows "key_of (inode_links (inodes s')) b = key_of (inode_links (inodes s)) b"
proof -
  from assms(2) obtain e where e0: "cell (inodes s) b = Some e"
    by auto
  with assms(1) obtain e' where "cell (inodes s') b = Some e'" "inode_data e' = inode_data e"
    unfolding inode_added_def by blast
  note e = e0 this
  have "i_ino (inode_data e') = i_ino e'" "i_ino (inode_data e) = i_ino e"
    by (simp_all add: inode_data_def)
  with e show ?thesis
    by (simp add: inode_links_key)
qed

lemma inode_added_key_new:
  assumes "inode_added ino s s'"
  shows "key_of (inode_links (inodes s')) (length (inodes s)) = ino"
proof -
  from assms obtain e where e: "cell (inodes s') (length (inodes s)) = Some e"
    "inode_data e = inode_data (zero_inode \<lparr> i_ino := ino \<rparr>)"
    by (auto simp: inode_added_def)
  have "i_ino (inode_data e) = i_ino e"
    by (simp add: inode_data_def)
  with e show ?thesis
    by (simp add: inode_links_key inode_data_def)
qed

lemma inode_at_unique:
  assumes "inode_table_ok N s" "inode_at N s ino a" "inode_at N s ino b"
  shows "a = b"
  using get_inode_found [OF assms(1), of a] get_inode_found [OF assms(1), of b] assms(2,3)
  by (simp add: inode_at_def)

lemma get_inode_cases:
  assumes ok: "inode_table_ok N s"
  shows "(\<exists>a. inode_at N s ino a \<and> get_inode N ino s = Some (Inr (a, s))) \<or>
         ((\<forall>a. \<not> inode_at N s ino a) \<and>
          (if callocs_left s = 0 then get_inode N ino s = Some (Inl Exit)
           else \<exists>s'. get_inode N ino s = Some (Inr (length (inodes s), s')) \<and>
                  inode_table_ok N s' \<and>
                  inode_addrs N s' = insert (length (inodes s)) (inode_addrs N s) \<and>
                  inode_added ino s s'))"
proof (cases "\<exists>a. inode_at N s ino a")
  case True
  then obtain a where a: "inode_at N s ino a" by blast
  with get_inode_found [OF ok, of a] show ?thesis
    by (auto simp: inode_at_def)
next
  case False
  then have "\<forall>a\<in>inode_addrs N s. key_of (inode_links (inodes s)) a \<noteq> ino"
    by (auto simp: inode_at_def)
  from get_inode_absent [OF ok this] False show ?thesis
    by simp
qed

lemma get_inode_step:
  assumes ok: "inode_table_ok N s" and g: "get_inode N ino s = Some (Inr (a, s'))"
  shows "inode_table_ok N s' \<and> inode_at N s' ino a \<and>
         (\<forall>y b. inode_at N s y b \<longrightarrow> inode_at N s' y b)"
proof -
  from get_inode_cases [OF ok, of ino] show ?thesis
  proof
    assume "\<exists>a. inode_at N s ino a \<and> get_inode N ino s = Some (Inr (a, s))"
    with g ok show ?thesis by auto
  next
    assume c: "(\<forall>a. \<not> inode_at N s ino a) \<and>
          (if callocs_left s = 0 then get_inode N ino s = Some (Inl Exit)
           else \<exists>s'. get_inode N ino s = Some (Inr (length (inodes s), s')) \<and>
                  inode_table_ok N s' \<and>
                  inode_addrs N s' = insert (length (inodes s)) (inode_addrs N s) \<and>
                  inode_added ino s s')"
    with g have a: "a = length (inodes s)" and ok': "inode_table_ok N s'"
      and addrs: "inode_addrs N s' = insert (length (inodes s)) (inode_addrs N s)"
      and add: "inode_added ino s s'"
      by (auto split: if_splits)
    from ok obtain tb where tb: "v_inode_table s = Some tb" by (auto simp: inode_table_ok_def)
    have old: "inode_at N s' y b" if "inode_at N s y b" for y b
    proof -
      from that have b: "b \<in> inode_addrs N s" and k: "key_of (inode_links (inodes s)) b = y"
        by (simp_all add: inode_at_def)
      from b have "inode_links (inodes s) b \<noteq> None"
        by (auto simp: inode_addrs_def tb dest: table_addrs_live)
      then have "cell (inodes s) b \<noteq> None"
        using inode_links_live [of "inodes s" b] by blast
      from inode_added_key [OF add this] b k addrs show ?thesis
        by (simp add: inode_at_def)
    qed
    have "inode_at N s' ino a"
      using inode_added_key_new [OF add] addrs by (simp add: inode_at_def a)
    with ok' old show ?thesis by blast
  qed
qed

lemma get_inode_total:
  assumes ok: "inode_table_ok N s"
  shows "get_inode N ino s = Some (Inl Exit) \<or> (\<exists>a s'. get_inode N ino s = Some (Inr (a, s')))"
  using get_inode_cases [OF ok, of ino] by (auto split: if_splits)

lemma table_inv_empty:
  assumes "0 < N" "N \<le> M" "N < 2 ^ 31"
  shows "table_inv N lk (replicate M None)"
    and "table_addrs N lk (replicate M None) = {}"
proof -
  have b: "bucket_ok N lk None i as \<longleftrightarrow> as = []" for i as
    by (cases as) (auto simp: bucket_ok_def)
  show "table_inv N lk (replicate M None)"
    using assms by (simp add: table_inv_def b)
  show "table_addrs N lk (replicate M None) = {}"
    by (auto simp: table_addrs_def b)
qed

lemma alloc_inode_table_ok:
  assumes "alloc_inode_table N s = Inr s'" "0 < N" "N < 2 ^ 31"
  shows "inode_table_ok N s' \<and> inode_addrs N s' = {}"
  using assms table_inv_empty [of N N "inode_links (inodes s)"]
  by (auto simp: alloc_inode_table_def inode_table_ok_def inode_addrs_def split: if_splits)

subsection \<open>The generic hash table\<close>

lemma htable_links_append:
  "htable_links (h @ [Some obj]) = (htable_links h)(length h \<mapsto> (h_id obj, h_next obj))"
  by (rule ext) (simp add: htable_links_def cell_append)

lemma htable_links_set_next:
  "cell h a = Some e \<Longrightarrow>
   htable_links (h [a := Some (e \<lparr> h_next := v \<rparr>)]) = (htable_links h)(a \<mapsto> (h_id e, v))"
  by (rule ext) (auto simp: htable_links_def cell_update cell_def split: if_splits)

lemma htable_links_fresh: "htable_links h (length h) = None"
  by (simp add: htable_links_def cell_def)

lemma htable_links_key: "cell h a = Some e \<Longrightarrow> key_of (htable_links h) a = h_id e"
  by (simp add: key_of_def htable_links_def)

lemma htable_links_live: "htable_links h a \<noteq> None \<longleftrightarrow> cell h a \<noteq> None"
  by (simp add: htable_links_def)

lemma get_htable_entry_found:
  assumes ok: "htable_ok N s" and a: "a \<in> htable_addrs N s"
  shows "get_htable_entry N (key_of (htable_links (entries s)) a) sz s = Some (Inr (a, s))"
proof -
  define lk where "lk = htable_links (entries s)"
  define ino where "ino = key_of lk a"
  from ok obtain tb where tb: "h_table s = Some tb" and inv: "table_inv N lk tb"
    by (auto simp: htable_ok_def lk_def)
  from inv have N: "0 < N" "N < 2 ^ 31"
    by (simp_all add: table_inv_def)
  obtain as where b: "bucket_ok N lk (tb ! (unat ino mod N)) (unat ino mod N) as"
    and i: "unat ino mod N < length tb"
    using table_inv_bucket [OF inv] by blast
  have a': "a \<in> table_addrs N lk tb"
    using a by (simp add: htable_addrs_def tb lk_def)
  have w: "walk_chain lk ino (Bucket (unat ino mod N), tb ! (unat ino mod N))
      = Some (Inr (Found a))"
    using walk_chain_table [OF inv b]
      walk_result_table_present [OF inv a' b [unfolded ino_def]]
    by (simp add: ino_def)
  show ?thesis
    using N i
    by (simp add: get_htable_entry_def tb index_of_eq [OF N] Let_def w
        lk_def [symmetric] ino_def [symmetric])
qed

lemma get_htable_entry_absent:
  assumes ok: "htable_ok N s"
    and absent: "\<forall>a\<in>htable_addrs N s. key_of (htable_links (entries s)) a \<noteq> ino"
  shows "if h_callocs_left s = 0 then get_htable_entry N ino sz s = Some (Inl Exit)
         else \<exists>s'. get_htable_entry N ino sz s = Some (Inr (length (entries s), s')) \<and>
                htable_ok N s' \<and>
                htable_addrs N s' = insert (length (entries s)) (htable_addrs N s) \<and>
                entry_added ino sz s s'"
proof -
  define lk where "lk = htable_links (entries s)"
  define n where "n = length (entries s)"
  define i0 where "i0 = unat ino mod N"
  from ok obtain tb where tb: "h_table s = Some tb" and inv: "table_inv N lk tb"
    by (auto simp: htable_ok_def lk_def)
  from inv have N: "0 < N" "N < 2 ^ 31"
    by (simp_all add: table_inv_def)
  obtain as where b: "bucket_ok N lk (tb ! i0) i0 as" and i: "i0 < length tb"
    using table_inv_bucket [OF inv, of ino] by (auto simp: i0_def)
  have sub: "set as \<subseteq> table_addrs N lk tb"
    using b i by (auto simp: table_addrs_def)
  have "walk_result lk ino (Bucket i0) as \<noteq> Found a" for a
    using walk_result_Found [of lk ino "Bucket i0" as a] sub absent
    by (auto simp: htable_addrs_def tb lk_def)
  then obtain entry_p entry where wr: "walk_result lk ino (Bucket i0) as = Vacant entry_p entry"
    by (cases "walk_result lk ino (Bucket i0) as") auto
  have w: "walk_chain lk ino (Bucket i0, tb ! i0) = Some (Inr (Vacant entry_p entry))"
    using walk_chain_table [OF inv b [unfolded i0_def]] wr by (simp add: i0_def)
  have unf: "get_htable_entry N ino sz s =
      (if h_callocs_left s = 0 then Some (Inl Exit)
       else Some (then_do
         (store_htable_slot entry_p (Some n)
           (s \<lparr> entries := entries s @ [Some (\<lparr> h_next = entry, h_id = ino, h_size = sz \<rparr>)],
                h_callocs_left := h_callocs_left s - 1 \<rparr>))
         (\<lambda>s2. Inr (n, s2))))"
    using N i
    by (simp add: get_htable_entry_def tb index_of_eq [OF N] Let_def w
        lk_def [symmetric] i0_def [symmetric] n_def)
  show ?thesis
  proof (cases "h_callocs_left s = 0")
    case True
    then show ?thesis by (simp add: unf)
  next
    case False
    define obj where "obj = \<lparr> h_next = entry, h_id = ino, h_size = sz \<rparr>"
    define s1 where "s1 = s \<lparr> entries := entries s @ [Some obj],
        h_callocs_left := h_callocs_left s - 1 \<rparr>"
    have fresh: "lk n = None"
      by (simp add: lk_def n_def htable_links_fresh)
    from walk_result_Vacant [OF wr] obtain pre post where
      as: "as = pre @ post"
      and ep: "entry_p = (if pre = [] then Bucket i0 else Next_field (last pre))"
      by blast
    have "\<exists>s'. store_htable_slot entry_p (Some n) s1 = Inr s' \<and>
        (\<exists>tb'. h_table s' = Some tb' \<and>
           splice entry_p n ino entry (lk, tb) = (htable_links (entries s'), tb')) \<and>
        entry_added ino sz s s'"
    proof (cases "pre = []")
      case True
      then have e: "entry_p = Bucket i0"
        using ep by simp
      show ?thesis
        using i
        apply (simp add: e store_htable_slot_def s1_def tb splice_def htable_links_append obj_def
            lk_def n_def entry_added_def cell_append entry_data_def)
        apply (auto simp: cell_def)
        done
    next
      case False
      then have e: "entry_p = Next_field (last pre)"
        using ep by simp
      define a where "a = last pre"
      have "a \<in> set as"
        using False as by (simp add: a_def)
      then have "lk a \<noteq> None"
        using b path_live by (auto simp: bucket_ok_def)
      then obtain c where c: "cell (entries s) a = Some c"
        by (auto simp: lk_def htable_links_def)
      then have an: "a < n" "a \<noteq> n"
        by (auto simp: cell_def n_def split: if_splits)
      have c1: "cell (entries s @ [Some obj]) a = Some c"
        using c an by (simp add: cell_append n_def)
      have k: "key_of lk a = h_id c"
        using c by (simp add: lk_def htable_links_key)
      define s' where "s' = s1 \<lparr> entries := (entries s @ [Some obj])
          [a := Some (c \<lparr> h_next := Some n \<rparr>)] \<rparr>"
      have st: "store_htable_slot entry_p (Some n) s1 = Inr s'"
        by (simp add: e a_def [symmetric] store_htable_slot_def s1_def c1 s'_def)
      have t': "h_table s' = Some tb"
        by (simp add: s'_def s1_def tb)
      have o: "h_id obj = ino" "h_next obj = entry"
        by (simp_all add: obj_def)
      have "htable_links (entries s') = (lk(n \<mapsto> (ino, entry)))(a \<mapsto> (h_id c, Some n))"
        by (simp add: s'_def s1_def htable_links_set_next [OF c1] htable_links_append o
            lk_def n_def)
      then have sp: "splice entry_p n ino entry (lk, tb) = (htable_links (entries s'), tb)"
        by (simp add: e a_def [symmetric] splice_def k)
      have len: "length (entries s') = Suc (length (entries s))"
        by (simp add: s'_def s1_def)
      have new: "cell (entries s') n = Some obj"
        using an by (simp add: s'_def s1_def cell_update cell_append n_def)
      have old: "\<exists>e'. cell (entries s') x = Some e' \<and> entry_data e' = entry_data y"
        if "cell (entries s) x = Some y" for x y
      proof (cases "x = a")
        case True
        with that c have "y = c" by simp
        with True an show ?thesis
          by (simp add: s'_def s1_def cell_update n_def entry_data_def)
      next
        case False
        have "x \<noteq> n"
          using that by (auto simp: cell_def n_def split: if_splits)
        with False that show ?thesis
          by (simp add: s'_def s1_def cell_update cell_append n_def)
      qed
      have rest: "s' \<lparr> entries := entries s, h_table := h_table s,
          h_callocs_left := h_callocs_left s \<rparr> = s"
        by (simp add: s'_def s1_def)
      have "entry_added ino sz s s'"
        unfolding entry_added_def
        using len new old rest
        by (auto simp: n_def [symmetric] obj_def entry_data_def s'_def s1_def)
      with st t' sp show ?thesis
        by blast
    qed
    then obtain s' tb' where st: "store_htable_slot entry_p (Some n) s1 = Inr s'"
      and tb': "h_table s' = Some tb'"
      and sp: "splice entry_p n ino entry (lk, tb) = (htable_links (entries s'), tb')"
      and add: "entry_added ino sz s s'"
      by blast
    have g: "get_htable_entry N ino sz s = Some (Inr (n, s'))"
      using False st by (simp add: unf s1_def obj_def then_do_def)
    have ok': "htable_ok N s'"
      using splice_table_inv [OF inv b [unfolded i0_def] wr [unfolded i0_def] fresh sp] tb'
      by (auto simp: htable_ok_def)
    have addrs: "htable_addrs N s' = insert n (htable_addrs N s)"
      using splice_table_addrs [OF inv b [unfolded i0_def] wr [unfolded i0_def] fresh sp]
      by (simp add: htable_addrs_def tb tb' lk_def)
    from False g ok' addrs add show ?thesis
      by (auto simp: n_def)
  qed
qed

lemma entry_added_key:
  assumes "entry_added ino sz s s'" and "cell (entries s) b \<noteq> None"
  shows "key_of (htable_links (entries s')) b = key_of (htable_links (entries s)) b"
proof -
  from assms(2) obtain e where e0: "cell (entries s) b = Some e"
    by auto
  with assms(1) obtain e' where "cell (entries s') b = Some e'" "entry_data e' = entry_data e"
    unfolding entry_added_def by blast
  note e = e0 this
  have "h_id (entry_data e') = h_id e'" "h_id (entry_data e) = h_id e"
    by (simp_all add: entry_data_def)
  with e show ?thesis
    by (simp add: htable_links_key)
qed

lemma entry_added_key_new:
  assumes "entry_added ino sz s s'"
  shows "key_of (htable_links (entries s')) (length (entries s)) = ino"
proof -
  from assms obtain e where e: "cell (entries s') (length (entries s)) = Some e"
    "entry_data e = \<lparr> h_next = None, h_id = ino, h_size = sz \<rparr>"
    by (auto simp: entry_added_def)
  have "h_id (entry_data e) = h_id e"
    by (simp add: entry_data_def)
  with e show ?thesis
    by (simp add: htable_links_key)
qed

lemma entry_at_unique:
  assumes "htable_ok N s" "entry_at N s ino a" "entry_at N s ino b"
  shows "a = b"
  using get_htable_entry_found [OF assms(1), of a] get_htable_entry_found [OF assms(1), of b] assms(2,3)
  by (simp add: entry_at_def)

lemma get_htable_entry_cases:
  assumes ok: "htable_ok N s"
  shows "(\<exists>a. entry_at N s ino a \<and> get_htable_entry N ino sz s = Some (Inr (a, s))) \<or>
         ((\<forall>a. \<not> entry_at N s ino a) \<and>
          (if h_callocs_left s = 0 then get_htable_entry N ino sz s = Some (Inl Exit)
           else \<exists>s'. get_htable_entry N ino sz s = Some (Inr (length (entries s), s')) \<and>
                  htable_ok N s' \<and>
                  htable_addrs N s' = insert (length (entries s)) (htable_addrs N s) \<and>
                  entry_added ino sz s s'))"
proof (cases "\<exists>a. entry_at N s ino a")
  case True
  then obtain a where a: "entry_at N s ino a" by blast
  with get_htable_entry_found [OF ok, of a] show ?thesis
    by (auto simp: entry_at_def)
next
  case False
  then have "\<forall>a\<in>htable_addrs N s. key_of (htable_links (entries s)) a \<noteq> ino"
    by (auto simp: entry_at_def)
  from get_htable_entry_absent [OF ok this] False show ?thesis
    by simp
qed

lemma get_htable_entry_step:
  assumes ok: "htable_ok N s" and g: "get_htable_entry N ino sz s = Some (Inr (a, s'))"
  shows "htable_ok N s' \<and> entry_at N s' ino a \<and>
         (\<forall>y b. entry_at N s y b \<longrightarrow> entry_at N s' y b)"
proof -
  from get_htable_entry_cases [OF ok, of ino sz] show ?thesis
  proof
    assume "\<exists>a. entry_at N s ino a \<and> get_htable_entry N ino sz s = Some (Inr (a, s))"
    with g ok show ?thesis by auto
  next
    assume c: "(\<forall>a. \<not> entry_at N s ino a) \<and>
          (if h_callocs_left s = 0 then get_htable_entry N ino sz s = Some (Inl Exit)
           else \<exists>s'. get_htable_entry N ino sz s = Some (Inr (length (entries s), s')) \<and>
                  htable_ok N s' \<and>
                  htable_addrs N s' = insert (length (entries s)) (htable_addrs N s) \<and>
                  entry_added ino sz s s')"
    with g have a: "a = length (entries s)" and ok': "htable_ok N s'"
      and addrs: "htable_addrs N s' = insert (length (entries s)) (htable_addrs N s)"
      and add: "entry_added ino sz s s'"
      by (auto split: if_splits)
    from ok obtain tb where tb: "h_table s = Some tb" by (auto simp: htable_ok_def)
    have old: "entry_at N s' y b" if "entry_at N s y b" for y b
    proof -
      from that have b: "b \<in> htable_addrs N s" and k: "key_of (htable_links (entries s)) b = y"
        by (simp_all add: entry_at_def)
      from b have "htable_links (entries s) b \<noteq> None"
        by (auto simp: htable_addrs_def tb dest: table_addrs_live)
      then have "cell (entries s) b \<noteq> None"
        using htable_links_live [of "entries s" b] by blast
      from entry_added_key [OF add this] b k addrs show ?thesis
        by (simp add: entry_at_def)
    qed
    have "entry_at N s' ino a"
      using entry_added_key_new [OF add] addrs by (simp add: entry_at_def a)
    with ok' old show ?thesis by blast
  qed
qed

lemma get_htable_entry_total:
  assumes ok: "htable_ok N s"
  shows "get_htable_entry N ino sz s = Some (Inl Exit) \<or> (\<exists>a s'. get_htable_entry N ino sz s = Some (Inr (a, s')))"
  using get_htable_entry_cases [OF ok, of ino sz] by (auto split: if_splits)

lemma alloc_htable_ok:
  assumes "alloc_htable M s = Inr s'" "0 < N" "N \<le> M" "N < 2 ^ 31"
  shows "htable_ok N s' \<and> htable_addrs N s' = {} \<and> entries s' = entries s"
  using assms table_inv_empty [of N M "htable_links (entries s)"]
  by (auto simp: alloc_htable_def htable_ok_def htable_addrs_def split: if_splits)

end
